theory Spec2Isabelle
  imports Main
begin


section \<open>Exceptions and the parsed page\<close>

text \<open>
  The program is one Python module, \<^verbatim>\<open>f1news/__main__.py\<close>, with three functions:
  \<^verbatim>\<open>main\<close>, \<^verbatim>\<open>scrape\<close> and the request handler \<^verbatim>\<open>default_handler\<close>.
  Every \<^verbatim>\<open>raise\<close> that can leave one of them is a value of \<open>exn\<close>; a function that
  can raise returns \<open>exn + 'a\<close>, with \<open>Inl\<close> for the exception.
\<close>

datatype exn =
    TypeError | ValueError | KeyError | IndexError | AttributeError
  | HTTPStatusError | TransportError | XMLSyntaxError

text \<open>
  \<^verbatim>\<open>context.soup\<close> is the page as BeautifulSoup parsed it.  The handler only calls
  \<^verbatim>\<open>select_one\<close> on it, which returns the first tag, in document order, that matches
  a CSS selector, or \<^verbatim>\<open>None\<close>.  So the page is the list of its tags in document
  order, each with its name and its attributes.  An attribute value is the string the
  selector engine compares (for \<^verbatim>\<open>rel\<close>, the tokens joined by spaces).
\<close>

record tag =
  tag_name :: string
  tag_attrs :: "string \<rightharpoonup> string"

type_synonym soup = "tag list"

text \<open>\<^verbatim>\<open>needle in hay\<close> for Python strings, which is also the CSS operator \<^verbatim>\<open>*=\<close>.\<close>

fun str_contains :: "string \<Rightarrow> string \<Rightarrow> bool" where
  "str_contains needle [] = (needle = [])"
| "str_contains needle (c # cs) =
     (take (length needle) (c # cs) = needle \<or> str_contains needle cs)"

text \<open>The selector \<^verbatim>\<open>[attr]\<close>: the attribute is present.\<close>

definition has_attr :: "tag \<Rightarrow> string \<Rightarrow> bool" where
  "has_attr t a = (case tag_attrs t a of None \<Rightarrow> False | Some _ \<Rightarrow> True)"

text \<open>The selector \<^verbatim>\<open>[attr="v"]\<close>: the attribute is present and equal to \<open>v\<close>.\<close>

definition attr_equals :: "tag \<Rightarrow> string \<Rightarrow> string \<Rightarrow> bool" where
  "attr_equals t a v = (case tag_attrs t a of None \<Rightarrow> False | Some w \<Rightarrow> w = v)"

text \<open>The selector \<^verbatim>\<open>[attr*="v"]\<close>: the attribute is present and contains \<open>v\<close>.\<close>

definition attr_contains :: "tag \<Rightarrow> string \<Rightarrow> string \<Rightarrow> bool" where
  "attr_contains t a v = (case tag_attrs t a of None \<Rightarrow> False | Some w \<Rightarrow> str_contains v w)"

text \<open>\<^verbatim>\<open>a[href*="/r/formula1/?f=flair_name"]\<close>\<close>

definition flair_selector :: "tag \<Rightarrow> bool" where
  "flair_selector t =
     (tag_name t = ''a'' \<and> attr_contains t ''href'' ''/r/formula1/?f=flair_name'')"

text \<open>\<^verbatim>\<open>a[aria-label][target="_blank"][rel*="nofollow"][rel*="noopener"]\<close>\<close>

definition article_selector :: "tag \<Rightarrow> bool" where
  "article_selector t =
     (tag_name t = ''a'' \<and> has_attr t ''aria-label'' \<and> attr_equals t ''target'' ''_blank''
      \<and> attr_contains t ''rel'' ''nofollow'' \<and> attr_contains t ''rel'' ''noopener'')"

definition select_one :: "(tag \<Rightarrow> bool) \<Rightarrow> soup \<Rightarrow> tag option" where
  "select_one sel page = find sel page"

text \<open>
  \<^verbatim>\<open>x["href"]\<close> where \<open>x\<close> is what \<^verbatim>\<open>select_one\<close> returned: subscripting
  \<^verbatim>\<open>None\<close> raises \<^verbatim>\<open>TypeError\<close>, a tag without the attribute raises \<^verbatim>\<open>KeyError\<close>.
\<close>

definition subscript :: "tag option \<Rightarrow> string \<Rightarrow> exn + string" where
  "subscript x a =
     (case x of
        None \<Rightarrow> Inl TypeError
      | Some t \<Rightarrow> (case tag_attrs t a of None \<Rightarrow> Inl KeyError | Some v \<Rightarrow> Inr v))"

text \<open>\<^verbatim>\<open>s.split(sep)\<close> for a one-character separator: always at least one piece.\<close>

fun split_on :: "char \<Rightarrow> string \<Rightarrow> string list" where
  "split_on sep [] = [[]]"
| "split_on sep (c # cs) =
     (if c = sep then [] # split_on sep cs
      else (case split_on sep cs of
              [] \<Rightarrow> [[c]]
            | p # ps \<Rightarrow> (c # p) # ps))"

text \<open>\<^verbatim>\<open>_, query_string = pieces\<close>: unpacking needs exactly two pieces.\<close>

definition unpack2 :: "string list \<Rightarrow> exn + (string \<times> string)" where
  "unpack2 pieces = (case pieces of [a, b] \<Rightarrow> Inr (a, b) | _ \<Rightarrow> Inl ValueError)"

text \<open>
  \<^verbatim>\<open>urllib.parse.parse_qs\<close> is a library function; the handler is modelled for any
  function from a query string to a dictionary of value lists.
\<close>

type_synonym qs_parser = "string \<Rightarrow> string \<rightharpoonup> string list"

text \<open>\<^verbatim>\<open>parse_qs(query_string)["f"][0]\<close>\<close>

definition first_f_value :: "qs_parser \<Rightarrow> string \<Rightarrow> exn + string" where
  "first_f_value parse_qs query_string =
     (case parse_qs query_string ''f'' of
        None \<Rightarrow> Inl KeyError
      | Some [] \<Rightarrow> Inl IndexError
      | Some (v # _) \<Rightarrow> Inr v)"

text \<open>The literal \<^verbatim>\<open>'flair_name:":post-news: News"'\<close>.\<close>

definition news_flair :: string where
  "news_flair = ''flair_name:'' @ [CHR 0x22] @ '':post-news: News'' @ [CHR 0x22]"

section \<open>The request handler\<close>

record result_record =
  reddit_url :: string
  article_url :: string

record crawling_context =
  request_url :: string
  page :: soup

text \<open>
  \<^verbatim>\<open>default_handler\<close>.  \<^verbatim>\<open>context.push_data\<close> appends to the crawler's dataset, so
  the handler takes the dataset and returns the new one; logging is left out.
  \<^verbatim>\<open>f_param_value\<close> is the first value of the query parameter \<^verbatim>\<open>f\<close>.
\<close>

definition f_param_value :: "qs_parser \<Rightarrow> soup \<Rightarrow> exn + string" where
  "f_param_value parse_qs pg =
     (case subscript (select_one flair_selector pg) ''href'' of
        Inl e \<Rightarrow> Inl e
      | Inr href \<Rightarrow>
          (case unpack2 (split_on CHR ''?'' href) of
             Inl e \<Rightarrow> Inl e
           | Inr (_, query_string) \<Rightarrow> first_f_value parse_qs query_string))"

definition default_handler ::
  "qs_parser \<Rightarrow> crawling_context \<Rightarrow> result_record list \<Rightarrow> exn + result_record list" where
  "default_handler parse_qs context dataset =
     (case f_param_value parse_qs (page context) of
        Inl e \<Rightarrow> Inl e
      | Inr v \<Rightarrow>
          if v \<noteq> news_flair then Inr dataset
          else
            (case subscript (select_one article_selector (page context)) ''href'' of
               Inl e \<Rightarrow> Inl e
             | Inr article \<Rightarrow>
                 Inr (dataset @ [\<lparr>reddit_url = request_url context, article_url = article\<rparr>])))"

text \<open>
  What one run of the handler did, read off its result: it raised (the spec's
  \<open>MalformedPage\<close>), it returned without pushing (\<open>NotNews\<close>), or it pushed one
  record (\<open>Accepted\<close>).
\<close>

datatype extraction_result = NotNews | Accepted result_record | MalformedPage exn

definition extractor ::
  "qs_parser \<Rightarrow> crawling_context \<Rightarrow> result_record list \<Rightarrow> extraction_result" where
  "extractor parse_qs context dataset =
     (case default_handler parse_qs context dataset of
        Inl e \<Rightarrow> MalformedPage e
      | Inr dataset' \<Rightarrow> if dataset' = dataset then NotNews else Accepted (last dataset'))"

text \<open>A query-string parser for the examples: \<^verbatim>\<open>k=v\<close> pairs separated by \<^verbatim>\<open>&\<close>, no escapes.\<close>

definition key_value :: "string \<Rightarrow> string \<times> string" where
  "key_value kv = (takeWhile (\<lambda>c. c \<noteq> CHR ''='') kv, drop 1 (dropWhile (\<lambda>c. c \<noteq> CHR ''='') kv))"

fun collect_values :: "(string \<times> string) list \<Rightarrow> string \<rightharpoonup> string list" where
  "collect_values [] = Map.empty"
| "collect_values ((k, v) # kvs) =
     (let m = collect_values kvs
      in if v = [] then m else m(k \<mapsto> v # (case m k of None \<Rightarrow> [] | Some vs \<Rightarrow> vs)))"

definition plain_parse_qs :: qs_parser where
  "plain_parse_qs q = collect_values (map key_value (split_on CHR ''&'' q))"

section \<open>The crawler, as the program sees it\<close>

text \<open>
  \<^verbatim>\<open>BeautifulSoupCrawler\<close> is a library class.  \<^verbatim>\<open>scrape\<close> constructs it with the
  settings below, calls \<^verbatim>\<open>crawler.run(links)\<close> and then reads the dataset the handler
  pushed to.  All the program sees of a run is the calls of \<^verbatim>\<open>default_handler\<close> the
  crawler makes, each with a request and the page fetched for it.  So a crawler is any
  function from the settings and the start URLs to the list of those calls, in call
  order.  An exception of the handler ends that call; the crawler goes on (a failed
  request does not make \<^verbatim>\<open>run\<close> raise).
\<close>

record crawler_settings =
  max_concurrency :: nat
  max_request_retries :: nat
  additional_http_error_status_codes :: "nat list"

type_synonym crawler = "crawler_settings \<Rightarrow> string list \<Rightarrow> crawling_context list"

text \<open>The dataset after the crawler made the given calls of the handler.\<close>

fun run_handler ::
  "qs_parser \<Rightarrow> crawling_context list \<Rightarrow> result_record list \<Rightarrow> result_record list" where
  "run_handler parse_qs [] dataset = dataset"
| "run_handler parse_qs (context # contexts) dataset =
     (case default_handler parse_qs context dataset of
        Inl e \<Rightarrow> run_handler parse_qs contexts dataset
      | Inr dataset' \<Rightarrow> run_handler parse_qs contexts dataset')"

text \<open>
  The crawler handles only requests it was given: \<^verbatim>\<open>run\<close> is called with \<open>links\<close>
  and the handler adds no request.
\<close>

definition only_given_requests :: "crawler \<Rightarrow> bool" where
  "only_given_requests crawl =
     (\<forall>settings links. request_url ` set (crawl settings links) \<subseteq> set links)"

text \<open>
  A request is handled again only after its handler raised: the crawler makes one
  request of equal links, and it retries a request whose handler failed, never one
  whose handler returned.  In the list of calls, a call that is followed by another call
  for the same URL is a call that raised.
\<close>

fun handled_again_only_after_raise :: "qs_parser \<Rightarrow> crawling_context list \<Rightarrow> bool" where
  "handled_again_only_after_raise parse_qs [] = True"
| "handled_again_only_after_raise parse_qs (c # cs) =
     ((isl (default_handler parse_qs c []) \<or> request_url c \<notin> request_url ` set cs)
      \<and> handled_again_only_after_raise parse_qs cs)"

text \<open>A crawler for the examples: one call per start URL, in order, with the pages given.\<close>

definition one_pass :: "soup list \<Rightarrow> crawler" where
  "one_pass pages settings links =
     map (\<lambda>(u, p). \<lparr>request_url = u, page = p\<rparr>) (zip links pages)"

section \<open>scrape\<close>

text \<open>
  What \<^verbatim>\<open>scrape\<close> and \<^verbatim>\<open>main\<close> get from outside: the answer to the one GET of the
  feed (\<^verbatim>\<open>client.get\<close> raises on a network error), the status codes for which
  \<^verbatim>\<open>raise_for_status\<close> raises, the link of each entry as \<^verbatim>\<open>feedparser\<close> reads the
  feed (\<open>None\<close> for an entry without one: \<^verbatim>\<open>entry.link\<close> then raises
  \<^verbatim>\<open>AttributeError\<close>), \<^verbatim>\<open>Actor.is_at_home()\<close>, the library functions and the crawler.
  \<open>xml_compatible\<close> holds of the strings that lxml accepts as an attribute value; for
  the others (a string with a NUL or a control character, say) \<^verbatim>\<open>link.set\<close> raises
  \<^verbatim>\<open>ValueError\<close>.
\<close>

record response =
  status_code :: nat
  content :: string

datatype element =
  Element (el_tag: string) (el_attrib: "(string \<times> string) list") (el_text: string)
    (el_children: "element list") (el_tail: string)

record environment =
  client_get :: "string \<Rightarrow> exn + response"
  raises_for_status :: "nat \<Rightarrow> bool"
  feedparser_entries :: "string \<Rightarrow> string option list"
  is_at_home :: bool
  parse_qs_of :: qs_parser
  crawler_of :: crawler
  fromstring :: "string \<Rightarrow> exn + element"
  tostring :: "element \<Rightarrow> string"
  xml_compatible :: "string \<Rightarrow> bool"

text \<open>\<^verbatim>\<open>[entry.link for entry in feed.entries]\<close>\<close>

fun entry_links :: "string option list \<Rightarrow> exn + string list" where
  "entry_links [] = Inr []"
| "entry_links (None # entries) = Inl AttributeError"
| "entry_links (Some link # entries) =
     (case entry_links entries of Inl e \<Rightarrow> Inl e | Inr links \<Rightarrow> Inr (link # links))"

text \<open>
  \<^verbatim>\<open>url_mapping = {}\<close>, then
  \<^verbatim>\<open>url_mapping[article["reddit_url"]] = article["article_url"]\<close> for each item.
\<close>

fun iterate_items :: "result_record list \<Rightarrow> (string \<rightharpoonup> string) \<Rightarrow> (string \<rightharpoonup> string)" where
  "iterate_items [] url_mapping = url_mapping"
| "iterate_items (article # articles) url_mapping =
     iterate_items articles (url_mapping(reddit_url article \<mapsto> article_url article))"

definition settings_of :: "environment \<Rightarrow> crawler_settings" where
  "settings_of env =
     \<lparr>max_concurrency = (if is_at_home env then 1 else 5),
      max_request_retries = (if is_at_home env then 50 else 3),
      additional_http_error_status_codes = [403, 429]\<rparr>"

text \<open>
  The effects of a run that the claims speak of: the files written and the calls of
  the handler made so far.
\<close>

record world =
  files :: "string \<rightharpoonup> string"
  handled :: "crawling_context list"

definition scrape ::
  "environment \<Rightarrow> string \<Rightarrow> world \<Rightarrow> (exn + string \<times> (string \<rightharpoonup> string)) \<times> world" where
  "scrape env feed_url w =
     (case client_get env feed_url of
        Inl e \<Rightarrow> (Inl e, w)
      | Inr response \<Rightarrow>
          if raises_for_status env (status_code response) then (Inl HTTPStatusError, w)
          else
            (let rss = content response
             in case entry_links (feedparser_entries env rss) of
                  Inl e \<Rightarrow> (Inl e, w)
                | Inr links \<Rightarrow>
                    (let calls = crawler_of env (settings_of env) links;
                         dataset = run_handler (parse_qs_of env) calls []
                     in (Inr (rss, iterate_items dataset Map.empty),
                         w\<lparr>handled := handled w @ calls\<rparr>))))"

section \<open>main: the feed filter\<close>

text \<open>
  \<^verbatim>\<open>etree.fromstring(rss)\<close> gives the root \<open>element\<close> of the feed: a tag (with its
  namespace, as lxml writes it), attributes in document order, text, children and tail.
  \<^verbatim>\<open>xml.xpath("//atom:entry")\<close> is the list of all Atom \<^verbatim>\<open>entry\<close> elements of the
  document, at any depth, in document order.
\<close>

definition atom_entry :: string where
  "atom_entry = ''{http://www.w3.org/2005/Atom}entry''"

definition atom_link :: string where
  "atom_link = ''{http://www.w3.org/2005/Atom}link''"

text \<open>\<^verbatim>\<open>entry.find("./atom:link")\<close>: the first child that is an Atom \<^verbatim>\<open>link\<close>, or \<^verbatim>\<open>None\<close>.\<close>

definition find_link :: "element \<Rightarrow> element option" where
  "find_link entry = find (\<lambda>c. el_tag c = atom_link) (el_children entry)"

text \<open>\<^verbatim>\<open>link.get("href")\<close>: the attribute, or \<^verbatim>\<open>None\<close>.\<close>

definition get_href :: "element \<Rightarrow> string option" where
  "get_href link = map_of (el_attrib link) ''href''"

text \<open>
  The attributes after a \<^verbatim>\<open>link.set(name, v)\<close> that succeeded: the value is replaced
  where the attribute stands, or added last.
\<close>

fun set_attrib :: "string \<Rightarrow> string \<Rightarrow> (string \<times> string) list \<Rightarrow> (string \<times> string) list" where
  "set_attrib a v [] = [(a, v)]"
| "set_attrib a v ((b, w) # attrib) =
     (if b = a then (b, v) # attrib else (b, w) # set_attrib a v attrib)"

definition with_href :: "string \<Rightarrow> element \<Rightarrow> element" where
  "with_href v link =
     Element (el_tag link) (set_attrib ''href'' v (el_attrib link)) (el_text link)
       (el_children link) (el_tail link)"

text \<open>
  \<^verbatim>\<open>link.set("href", v)\<close>: lxml raises \<^verbatim>\<open>ValueError\<close> for a value that is not
  XML compatible and changes nothing; otherwise the attribute is set.
\<close>

definition set_href :: "(string \<Rightarrow> bool) \<Rightarrow> string \<Rightarrow> element \<Rightarrow> exn + element" where
  "set_href compatible v link =
     (if compatible v then Inr (with_href v link) else Inl ValueError)"

text \<open>
  \<^verbatim>\<open>link.set\<close> changes the link where it stands, among the children of the entry.
  The entries inside the link are visited after that and may change its children; its
  attributes stay as \<^verbatim>\<open>set\<close> left them.  So at the end of the loop the first link
  child of the entry has the attributes of the link that \<^verbatim>\<open>set\<close> returned and the
  children that the later visits left.
\<close>

fun put_first_link :: "element \<Rightarrow> element list \<Rightarrow> element list" where
  "put_first_link link' [] = []"
| "put_first_link link' (c # cs) =
     (if el_tag c = atom_link
      then Element (el_tag c) (el_attrib link') (el_text c) (el_children c) (el_tail c) # cs
      else c # put_first_link link' cs)"

text \<open>
  The body of the loop for one entry: \<^verbatim>\<open>link.set\<close> on \<^verbatim>\<open>None\<close> raises
  \<^verbatim>\<open>AttributeError\<close>, which the \<^verbatim>\<open>except KeyError\<close> does not catch; a link without
  \<^verbatim>\<open>href\<close> looks \<^verbatim>\<open>None\<close> up in the mapping, a \<^verbatim>\<open>KeyError\<close> like any other
  missing key; a mapped value that lxml refuses makes \<^verbatim>\<open>link.set\<close> raise
  \<^verbatim>\<open>ValueError\<close>, which is not caught either.  The entry is kept, with the link
  as \<^verbatim>\<open>set\<close> left it, or it is removed.
\<close>

datatype verdict = Keeping element | Removing

definition entry_verdict ::
  "(string \<Rightarrow> bool) \<Rightarrow> (string \<rightharpoonup> string) \<Rightarrow> element \<Rightarrow> exn + verdict" where
  "entry_verdict compatible url_mapping entry =
     (case find_link entry of
        None \<Rightarrow> Inl AttributeError
      | Some link \<Rightarrow>
          (case get_href link of
             None \<Rightarrow> Inr Removing
           | Some href \<Rightarrow>
               (case url_mapping href of
                  None \<Rightarrow> Inr Removing
                | Some v \<Rightarrow>
                    (case set_href compatible v link of
                       Inl e \<Rightarrow> Inl e
                     | Inr link' \<Rightarrow> Inr (Keeping link')))))"

text \<open>
  The loop \<^verbatim>\<open>for entry in xml.xpath("//atom:entry")\<close> visits the entries in document
  order: an entry, then the entries inside it, then the entries after it.  Each visit
  changes one attribute of a child of the entry or takes the entry (with its tail) out
  of its parent's children, so the visits do not disturb one another, and the loop is
  this traversal: \<open>filter_element\<close> returns what stands in the parent's children in
  place of an element (\<open>None\<close> when the loop removed it), \<open>filter_children\<close> the new
  children.  Entries inside a removed entry are still visited (they were in the list
  that \<^verbatim>\<open>xpath\<close> returned), and still raise when they have no link or a mapped
  value that lxml refuses.  The first visit that raises ends the loop.
\<close>

fun filter_element ::
    "(string \<Rightarrow> bool) \<Rightarrow> (string \<rightharpoonup> string) \<Rightarrow> element \<Rightarrow> exn + element option"
  and filter_children ::
    "(string \<Rightarrow> bool) \<Rightarrow> (string \<rightharpoonup> string) \<Rightarrow> element list \<Rightarrow> exn + element list" where
  "filter_element compatible url_mapping (Element t a tx cs ta) =
     (if t = atom_entry then
        (case entry_verdict compatible url_mapping (Element t a tx cs ta) of
           Inl e \<Rightarrow> Inl e
         | Inr Removing \<Rightarrow>
             (case filter_children compatible url_mapping cs of
                Inl e \<Rightarrow> Inl e
              | Inr cs' \<Rightarrow> Inr None)
         | Inr (Keeping link') \<Rightarrow>
             (case filter_children compatible url_mapping cs of
                Inl e \<Rightarrow> Inl e
              | Inr cs' \<Rightarrow> Inr (Some (Element t a tx (put_first_link link' cs') ta))))
      else
        (case filter_children compatible url_mapping cs of
           Inl e \<Rightarrow> Inl e
         | Inr cs' \<Rightarrow> Inr (Some (Element t a tx cs' ta))))"
| "filter_children compatible url_mapping [] = Inr []"
| "filter_children compatible url_mapping (c # cs) =
     (case filter_element compatible url_mapping c of
        Inl e \<Rightarrow> Inl e
      | Inr kept \<Rightarrow>
          (case filter_children compatible url_mapping cs of
             Inl e \<Rightarrow> Inl e
           | Inr cs' \<Rightarrow> Inr ((case kept of None \<Rightarrow> [] | Some c' \<Rightarrow> [c']) @ cs')))"

text \<open>
  The whole loop, from the root.  The root is the first element visited and has no
  parent: removing it is \<^verbatim>\<open>None.remove(entry)\<close>, an \<^verbatim>\<open>AttributeError\<close> raised
  before any other entry is visited.
\<close>

definition filter_feed ::
  "(string \<Rightarrow> bool) \<Rightarrow> (string \<rightharpoonup> string) \<Rightarrow> element \<Rightarrow> exn + element" where
  "filter_feed compatible url_mapping xml =
     (if el_tag xml = atom_entry \<and> entry_verdict compatible url_mapping xml = Inr Removing
      then Inl AttributeError
      else
        (case filter_element compatible url_mapping xml of
           Inl e \<Rightarrow> Inl e
         | Inr None \<Rightarrow> Inl AttributeError
         | Inr (Some xml') \<Rightarrow> Inr xml'))"

text \<open>\<^verbatim>\<open>main\<close>; the \<^verbatim>\<open>debug\<close> flag only sets log levels.\<close>

definition main ::
  "environment \<Rightarrow> string \<Rightarrow> string \<Rightarrow> world \<Rightarrow> (exn + unit) \<times> world" where
  "main env feed_url output_path w =
     (case scrape env feed_url w of
        (Inl e, w') \<Rightarrow> (Inl e, w')
      | (Inr (rss, url_mapping), w') \<Rightarrow>
          (case fromstring env rss of
             Inl e \<Rightarrow> (Inl e, w')
           | Inr xml \<Rightarrow>
               (case filter_feed (xml_compatible env) url_mapping xml of
                  Inl e \<Rightarrow> (Inl e, w')
                | Inr xml' \<Rightarrow>
                    (Inr (), w'\<lparr>files := (files w')(output_path \<mapsto> tostring env xml')\<rparr>))))"

section \<open>Example pages, feeds and environments\<close>

definition flair_anchor :: "string \<Rightarrow> tag" where
  "flair_anchor v = \<lparr>tag_name = ''a'', tag_attrs = [''href'' \<mapsto> ''/r/formula1/?f='' @ v]\<rparr>"

definition outbound_anchor :: "string \<Rightarrow> tag" where
  "outbound_anchor u =
     \<lparr>tag_name = ''a'',
      tag_attrs = [''href'' \<mapsto> u, ''aria-label'' \<mapsto> ''article'', ''target'' \<mapsto> ''_blank'',
                   ''rel'' \<mapsto> ''noopener nofollow ugc'']\<rparr>"

definition news_page :: "string \<Rightarrow> soup" where
  "news_page u = [flair_anchor news_flair, outbound_anchor u]"

definition video_page :: "string \<Rightarrow> soup" where
  "video_page u = [flair_anchor ''flair_name:Video'', outbound_anchor u]"

text \<open>For the examples: no character below 32 but tab, line feed and carriage return.\<close>

definition no_control_characters :: "string \<Rightarrow> bool" where
  "no_control_characters v =
     list_all (\<lambda>c. 32 \<le> (of_char c :: nat) \<or> (of_char c :: nat) \<in> {9, 10, 13}) v"

definition example_env :: "exn + response \<Rightarrow> string option list \<Rightarrow> crawler \<Rightarrow> element \<Rightarrow> environment" where
  "example_env answer entries crawl doc =
     \<lparr>client_get = (\<lambda>u. answer),
      raises_for_status = (\<lambda>s. 400 \<le> s),
      feedparser_entries = (\<lambda>rss. entries),
      is_at_home = False,
      parse_qs_of = plain_parse_qs,
      crawler_of = crawl,
      fromstring = (\<lambda>rss. Inr doc),
      tostring = (\<lambda>x. el_tag x),
      xml_compatible = no_control_characters\<rparr>"

definition ok_answer :: "exn + response" where
  "ok_answer = Inr \<lparr>status_code = 200, content = ''feed''\<rparr>"

definition empty_world :: world where
  "empty_world = \<lparr>files = Map.empty, handled = []\<rparr>"

definition three_links_env :: environment where
  "three_links_env =
     example_env ok_answer [Some ''A'', Some ''B'', Some ''C'']
       (one_pass [news_page ''X'', video_page ''Y'', []])
       (Element ''feed'' [] [] [] [])"

section \<open>The feed filter in the spec's words\<close>

text \<open>
  \<^verbatim>\<open>xml.xpath("//atom:entry")\<close>: the entries of the document, in document order.
\<close>

fun entries :: "element \<Rightarrow> element list" where
  "entries (Element t a tx cs ta) =
     (if t = atom_entry then [Element t a tx cs ta] else []) @ concat (map entries cs)"

text \<open>
  The article URL that the mapping gives for the entry's link, if the entry has a link,
  the link an \<^verbatim>\<open>href\<close> and the \<^verbatim>\<open>href\<close> is a key.
\<close>

definition mapped_href :: "(string \<rightharpoonup> string) \<Rightarrow> element \<Rightarrow> string option" where
  "mapped_href url_mapping entry =
     (case find_link entry of
        None \<Rightarrow> None
      | Some link \<Rightarrow> (case get_href link of None \<Rightarrow> None | Some href \<Rightarrow> url_mapping href))"

text \<open>The \<^verbatim>\<open>href\<close> of the entry's link, if it has a link and the link an \<^verbatim>\<open>href\<close>.\<close>

definition link_href :: "element \<Rightarrow> string option" where
  "link_href entry = (case find_link entry of None \<Rightarrow> None | Some link \<Rightarrow> get_href link)"

text \<open>An entry with its link rewritten to \<open>v\<close>: the \<^verbatim>\<open>href\<close> of its first link child is \<open>v\<close>.\<close>

fun set_first_link :: "string \<Rightarrow> element list \<Rightarrow> element list" where
  "set_first_link v [] = []"
| "set_first_link v (c # cs) =
     (if el_tag c = atom_link then with_href v c # cs else c # set_first_link v cs)"

definition with_link :: "string \<Rightarrow> element \<Rightarrow> element" where
  "with_link v entry =
     Element (el_tag entry) (el_attrib entry) (el_text entry)
       (set_first_link v (el_children entry)) (el_tail entry)"

text \<open>
  The filter as the spec words it: walk the entries in feed order, rewrite the link of
  each entry whose \<^verbatim>\<open>href\<close> is a key of the mapping to the mapped article URL, and
  remove each entry whose \<^verbatim>\<open>href\<close> is not.  \<open>rewritten\<close> does this below an element.
\<close>

fun rewritten :: "(string \<rightharpoonup> string) \<Rightarrow> element \<Rightarrow> element" where
  "rewritten url_mapping (Element t a tx cs ta) =
     Element t a tx
       (concat (map (\<lambda>c. if el_tag c = atom_entry
                           then (case mapped_href url_mapping c of
                                   None \<Rightarrow> []
                                 | Some v \<Rightarrow> [with_link v (rewritten url_mapping c)])
                           else [rewritten url_mapping c]) cs))
       ta"

definition spec_filter :: "(string \<rightharpoonup> string) \<Rightarrow> element \<Rightarrow> element" where
  "spec_filter url_mapping xml =
     (if el_tag xml = atom_entry
      then (case mapped_href url_mapping xml of
              None \<Rightarrow> rewritten url_mapping xml
            | Some v \<Rightarrow> with_link v (rewritten url_mapping xml))
      else rewritten url_mapping xml)"

text \<open>
  An entry without the \<^verbatim>\<open>href\<close> of its link: two entries that agree on it differ at
  most in that attribute.
\<close>

definition del_href :: "element \<Rightarrow> element" where
  "del_href link =
     Element (el_tag link) (filter (\<lambda>(k, v). k \<noteq> ''href'') (el_attrib link)) (el_text link)
       (el_children link) (el_tail link)"

fun del_first_link_href :: "element list \<Rightarrow> element list" where
  "del_first_link_href [] = []"
| "del_first_link_href (c # cs) =
     (if el_tag c = atom_link then del_href c # cs else c # del_first_link_href cs)"

definition without_link_href :: "element \<Rightarrow> element" where
  "without_link_href entry =
     Element (el_tag entry) (el_attrib entry) (el_text entry)
       (del_first_link_href (el_children entry)) (el_tail entry)"

text \<open>Every entry of the document has a link child.\<close>

definition entries_have_links :: "element \<Rightarrow> bool" where
  "entries_have_links xml = list_all (\<lambda>e. find_link e \<noteq> None) (entries xml)"

text \<open>Every article URL that the mapping gives for an entry of the document is one lxml accepts.\<close>

definition values_compatible ::
  "(string \<Rightarrow> bool) \<Rightarrow> (string \<rightharpoonup> string) \<Rightarrow> element \<Rightarrow> bool" where
  "values_compatible compatible url_mapping xml =
     list_all (\<lambda>e. case mapped_href url_mapping e of None \<Rightarrow> True | Some v \<Rightarrow> compatible v)
       (entries xml)"

text \<open>No entry of the document has an entry inside it.\<close>

definition no_nested_entries :: "element \<Rightarrow> bool" where
  "no_nested_entries xml =
     list_all (\<lambda>e. list_all (\<lambda>c. entries c = []) (el_children e)) (entries xml)"

text \<open>What stands in the output, among its parent's children, in place of an element.\<close>

definition in_place_of :: "(string \<rightharpoonup> string) \<Rightarrow> element \<Rightarrow> element list" where
  "in_place_of url_mapping c =
     (if el_tag c = atom_entry
      then (case mapped_href url_mapping c of
              None \<Rightarrow> []
            | Some v \<Rightarrow> [with_link v (rewritten url_mapping c)])
      else [rewritten url_mapping c])"

definition link_to :: "string \<Rightarrow> element" where
  "link_to h = Element atom_link [(''href'', h)] [] [] []"

definition entry_for :: "string \<Rightarrow> string \<Rightarrow> element" where
  "entry_for title h =
     Element atom_entry []  []
       [Element ''{http://www.w3.org/2005/Atom}title'' [] title [] [], link_to h] []"

definition three_entries_feed :: element where
  "three_entries_feed =
     Element ''{http://www.w3.org/2005/Atom}feed'' [] []
       [entry_for ''a'' ''A'', entry_for ''b'' ''B'', entry_for ''c'' ''C''] []"

definition unlinked_feed :: element where
  "unlinked_feed =
     Element ''{http://www.w3.org/2005/Atom}feed'' [] []
       [Element atom_entry [] []
          [Element ''{http://www.w3.org/2005/Atom}title'' [] ''b'' [] []] []] []"

definition nested_entry :: element where
  "nested_entry = Element atom_entry [] [] [link_to ''A'', entry_for ''b'' ''B''] []"

definition nested_feed :: element where
  "nested_feed = Element ''{http://www.w3.org/2005/Atom}feed'' [] [] [nested_entry] []"

section \<open>The crawl scheduler of the spec\<close>

text \<open>
  Modelled from the spec: the code of \<^verbatim>\<open>BeautifulSoupCrawler.run\<close> (queue, retries,
  concurrency) is not part of the sources.  A \<open>SubmissionTask\<close> (spec, section 3) has a
  URL and the number of fetch attempts made so far; \<open>tid\<close>, the position of the task's
  entry in the feed, is added to tell tasks with the same URL apart.
\<close>

record submission_task =
  tid :: nat
  url :: string
  attempt_count :: nat

text \<open>
  Modelled from the spec: what one call of the page fetcher produced (section 4.1), a
  network error or an HTTP status with the parsed body.
\<close>

datatype fetch_answer = NetworkError | Answer nat soup

text \<open>
  Modelled from the spec: \<open>FetchOutcome\<close> (section 3), a successful response or a
  failure that is retryable or fatal.
\<close>

datatype fetch_outcome = Success soup nat | RetryableFailure | FatalFailure

text \<open>
  Modelled from the spec: the retryable statuses (section 4.1 and the glossary) are
  the additional error status codes, 403 and 429 in \<open>scrape\<close>, and 5xx.
\<close>

definition retryable_status :: "nat list \<Rightarrow> nat \<Rightarrow> bool" where
  "retryable_status additional s = (s \<in> set additional \<or> (500 \<le> s \<and> s < 600))"

text \<open>
  Modelled from the spec: the classification of section 4.1.  A network error is
  retryable, a retryable status is retryable, 2xx is success and any other status is
  fatal to the task.
\<close>

fun classify :: "nat list \<Rightarrow> fetch_answer \<Rightarrow> fetch_outcome" where
  "classify additional NetworkError = RetryableFailure"
| "classify additional (Answer s body) =
     (if retryable_status additional s then RetryableFailure
      else if 200 \<le> s \<and> s < 300 then Success body s
      else FatalFailure)"

text \<open>
  Modelled from the spec: how one fetch-extract cycle of a task ended (section 4.3):
  re-enqueued after a retryable failure, dropped with its retries exhausted (with the
  attempt count at that time), dropped after a fatal failure, or extracted.
\<close>

datatype cycle_end = Requeued | Exhausted nat | Fatal | Extracted extraction_result

text \<open>
  Modelled from the spec: the state of the scheduler (section 4.3), the work queue, the
  cycles in flight (at most \<open>max_concurrency\<close>) and the store of result records.  The
  journal records, for each finished cycle, the task, the answer to its fetch and how
  the cycle ended; \<open>calls\<close> records the calls of the handler, in order.
\<close>

record scheduler =
  queue :: "submission_task list"
  in_flight :: "submission_task list"
  store :: "result_record list"
  journal :: "(nat \<times> fetch_answer \<times> cycle_end) list"
  calls :: "crawling_context list"

text \<open>
  Modelled from the spec: the work queue is initialised with one task per submission
  link, in feed order, each with no attempt made.
\<close>

definition init :: "string list \<Rightarrow> scheduler" where
  "init links =
     \<lparr>queue = map (\<lambda>(i, u). \<lparr>tid = i, url = u, attempt_count = 0\<rparr>) (enumerate 0 links),
      in_flight = [], store = [], journal = [], calls = []\<rparr>"

text \<open>
  Modelled from the spec: what happens in a run (section 5 has suspension only at the
  fetch): a cycle starts by popping a task when fewer than \<open>max_concurrency\<close> are in
  flight, or the fetch of the cycle at position \<open>k\<close> in flight is answered.
\<close>

datatype event = Pop | Answered nat fetch_answer

definition without_nth :: "nat \<Rightarrow> 'a list \<Rightarrow> 'a list" where
  "without_nth k xs = take k xs @ drop (Suc k) xs"

text \<open>
  Modelled from the spec: one cycle (section 4.3): pop a task, fetch; on retryable
  failure, increment \<open>attempt_count\<close> and re-enqueue if \<open>attempt_count < max_retries\<close>,
  else drop silently; on fatal failure, drop silently; on fetch success, run the
  extractor (the handler of the source): on \<open>Accepted\<close> the record is appended to the
  store, on \<open>NotNews\<close> or \<open>MalformedPage\<close> the task is dropped silently.
\<close>

definition finish_cycle ::
  "qs_parser \<Rightarrow> crawler_settings \<Rightarrow> scheduler \<Rightarrow> nat \<Rightarrow> fetch_answer \<Rightarrow> scheduler" where
  "finish_cycle parse_qs settings s k answer =
     (let t = in_flight s ! k;
          others = without_nth k (in_flight s)
      in case classify (additional_http_error_status_codes settings) answer of
           RetryableFailure \<Rightarrow>
             (let t' = t\<lparr>attempt_count := attempt_count t + 1\<rparr>
              in if attempt_count t' < max_request_retries settings
                 then s\<lparr>queue := queue s @ [t'], in_flight := others,
                        journal := journal s @ [(tid t, answer, Requeued)]\<rparr>
                 else s\<lparr>in_flight := others,
                        journal := journal s @ [(tid t, answer, Exhausted (attempt_count t'))]\<rparr>)
         | FatalFailure \<Rightarrow>
             s\<lparr>in_flight := others, journal := journal s @ [(tid t, answer, Fatal)]\<rparr>
         | Success body status \<Rightarrow>
             (let c = \<lparr>request_url = url t, page = body\<rparr>
              in s\<lparr>in_flight := others,
                   store := (case default_handler parse_qs c (store s) of
                               Inl e \<Rightarrow> store s
                             | Inr dataset \<Rightarrow> dataset),
                   journal := journal s @ [(tid t, answer, Extracted (extractor parse_qs c (store s)))],
                   calls := calls s @ [c]\<rparr>))"

fun step :: "qs_parser \<Rightarrow> crawler_settings \<Rightarrow> scheduler \<Rightarrow> event \<Rightarrow> scheduler" where
  "step parse_qs settings s Pop =
     (case queue s of
        [] \<Rightarrow> s
      | t # waiting \<Rightarrow>
          if length (in_flight s) < max_concurrency settings
          then s\<lparr>queue := waiting, in_flight := in_flight s @ [t]\<rparr>
          else s)"
| "step parse_qs settings s (Answered k answer) =
     (if k < length (in_flight s) then finish_cycle parse_qs settings s k answer else s)"

text \<open>Modelled from the spec: a run from the initial queue, driven by the events.\<close>

definition run :: "qs_parser \<Rightarrow> crawler_settings \<Rightarrow> event list \<Rightarrow> string list \<Rightarrow> scheduler" where
  "run parse_qs settings events links = foldl (step parse_qs settings) (init links) events"

text \<open>The scheduler of the spec as a crawler: the calls of the handler it makes.\<close>

definition spec_crawler :: "qs_parser \<Rightarrow> event list \<Rightarrow> crawler" where
  "spec_crawler parse_qs events settings links = calls (run parse_qs settings events links)"

text \<open>The tasks that have not reached a terminal state: waiting in the queue or in flight.\<close>

definition live :: "scheduler \<Rightarrow> submission_task list" where
  "live s = queue s @ in_flight s"

text \<open>The record that a cycle appended to the store, if it did.\<close>

fun accepted_of :: "nat \<times> fetch_answer \<times> cycle_end \<Rightarrow> result_record list" where
  "accepted_of (i, a, Extracted (Accepted r)) = [r]"
| "accepted_of (i, a, e) = []"

text \<open>
  The store holds the records of the accepted cycles, in order, each under the URL of
  its task; every cycle in the journal is a cycle of a task of the feed; the handler was
  called for URLs of the feed only, and the store is what these calls pushed.
\<close>

definition store_inv :: "qs_parser \<Rightarrow> string list \<Rightarrow> scheduler \<Rightarrow> bool" where
  "store_inv parse_qs links s =
     (store s = concat (map accepted_of (journal s))
      \<and> (\<forall>p \<in> set (journal s). fst p < length links
            \<and> (\<forall>r. snd (snd p) = Extracted (Accepted r) \<longrightarrow> reddit_url r = links ! fst p))
      \<and> store s = run_handler parse_qs (calls s) []
      \<and> request_url ` set (calls s) \<subseteq> set links
      \<and> (\<forall>t \<in> set (live s). tid t < length links \<and> url t = links ! tid t))"

definition flair_only_page :: soup where
  "flair_only_page = [flair_anchor ''flair_name:Video'']"

definition news_without_link_page :: soup where
  "news_without_link_page = [flair_anchor news_flair]"

definition malformed_page_env :: environment where
  "malformed_page_env =
     example_env ok_answer [Some ''A'', Some ''B'', Some ''C'']
       (one_pass [news_page ''X'', news_without_link_page, news_page ''Z''])
       (Element ''feed'' [] [] [] [])"

text \<open>
  A crawler for the examples that handles every start URL twice, as after a failed
  request: first with one page, then with another.
\<close>

definition retry_pass :: "soup \<Rightarrow> soup \<Rightarrow> crawler" where
  "retry_pass first again settings links =
     concat (map (\<lambda>u. [\<lparr>request_url = u, page = first\<rparr>, \<lparr>request_url = u, page = again\<rparr>]) links)"

definition retried_page_env :: environment where
  "retried_page_env =
     example_env ok_answer [Some ''A'']
       (retry_pass news_without_link_page (news_page ''X''))
       (Element ''feed'' [] [] [] [])"

definition control_value_feed :: element where
  "control_value_feed =
     Element ''{http://www.w3.org/2005/Atom}feed'' [] [] [entry_for ''a'' ''A''] []"

definition two_attribute_feed :: element where
  "two_attribute_feed =
     Element ''{http://www.w3.org/2005/Atom}feed'' [] []
       [Element atom_entry [] []
          [Element atom_link [(''rel'', ''alternate''), (''href'', ''A'')] [] [] []] []] []"

section \<open>Properties of the handler\<close>

text \<open>The handler reads nothing from the dataset: it returns it as it is or appends one record.\<close>

lemma default_handler_dataset:
  "default_handler parse_qs context dataset =
     (case default_handler parse_qs context [] of
        Inl e \<Rightarrow> Inl e
      | Inr items \<Rightarrow> Inr (dataset @ items))"
  by (simp add: default_handler_def split: sum.splits)

lemma default_handler_extractor:
  "default_handler parse_qs context dataset =
     (case extractor parse_qs context dataset of
        MalformedPage e \<Rightarrow> Inl e
      | NotNews \<Rightarrow> Inr dataset
      | Accepted r \<Rightarrow> Inr (dataset @ [r]))"
  by (simp add: extractor_def default_handler_def split: sum.splits)

lemma extractor_Accepted_url:
  "extractor parse_qs context dataset = Accepted r \<Longrightarrow> reddit_url r = request_url context"
  by (auto simp: extractor_def default_handler_def split: sum.splits if_splits)

lemma extractor_dataset:
  "extractor parse_qs context dataset = extractor parse_qs context []"
  by (simp add: extractor_def default_handler_def split: sum.splits)

text \<open>
  C9.  Extraction is deterministic and reads no mutable state: the result of the
  extractor for a page and a request URL is the same whatever the dataset holds when it
  runs, so running it again (on the dataset the first run left, or on any other) gives
  the same result.
\<close>

theorem extraction_deterministic:
  "extractor parse_qs ctx dataset1 = extractor parse_qs ctx dataset2"
  using extractor_dataset [of parse_qs ctx dataset1]
    extractor_dataset [of parse_qs ctx dataset2]
  by simp

section \<open>Evaluating the examples\<close>

lemmas handler_eval =
  default_handler_def f_param_value_def select_one_def flair_selector_def
  article_selector_def attr_contains_def attr_equals_def has_attr_def subscript_def
  unpack2_def first_f_value_def plain_parse_qs_def key_value_def news_flair_def
  flair_anchor_def outbound_anchor_def news_page_def video_page_def

lemma news_page_handled:
  "default_handler plain_parse_qs \<lparr>request_url = r, page = news_page u\<rparr> dataset =
     Inr (dataset @ [\<lparr>reddit_url = r, article_url = u\<rparr>])"
  by (simp add: handler_eval)

lemma video_page_handled:
  "default_handler plain_parse_qs \<lparr>request_url = r, page = video_page u\<rparr> dataset = Inr dataset"
  by (simp add: handler_eval)

lemma empty_page_handled:
  "default_handler parse_qs \<lparr>request_url = r, page = []\<rparr> dataset = Inl TypeError"
  by (simp add: handler_eval)

lemma one_pass_only_given: "only_given_requests (one_pass pages)"
  by (auto simp: only_given_requests_def one_pass_def dest: set_zip_leftD)

section \<open>The mapping that scrape returns\<close>

lemma run_handler_records:
  "r \<in> set (run_handler parse_qs contexts dataset) \<Longrightarrow>
     r \<in> set dataset \<or> (\<exists>c \<in> set contexts. extractor parse_qs c [] = Accepted r)"
proof (induction contexts arbitrary: dataset)
  case Nil
  then show ?case by simp
next
  case (Cons c contexts)
  show ?case
  proof (cases "extractor parse_qs c []")
    case NotNews
    then have "default_handler parse_qs c dataset = Inr dataset"
      using default_handler_extractor [of parse_qs c dataset] extractor_dataset [of parse_qs c dataset]
      by simp
    with Cons.prems have "r \<in> set (run_handler parse_qs contexts dataset)" by simp
    from Cons.IH [OF this] show ?thesis by auto
  next
    case (Accepted x)
    then have "default_handler parse_qs c dataset = Inr (dataset @ [x])"
      using default_handler_extractor [of parse_qs c dataset] extractor_dataset [of parse_qs c dataset]
      by simp
    with Cons.prems have "r \<in> set (run_handler parse_qs contexts (dataset @ [x]))" by simp
    from Cons.IH [OF this] Accepted show ?thesis by auto
  next
    case (MalformedPage e)
    then have "default_handler parse_qs c dataset = Inl e"
      using default_handler_extractor [of parse_qs c dataset] extractor_dataset [of parse_qs c dataset]
      by simp
    with Cons.prems have "r \<in> set (run_handler parse_qs contexts dataset)" by simp
    from Cons.IH [OF this] show ?thesis by auto
  qed
qed

lemma iterate_items_entry:
  "iterate_items articles url_mapping u = Some a \<Longrightarrow>
     url_mapping u = Some a \<or> (\<exists>r \<in> set articles. reddit_url r = u \<and> article_url r = a)"
proof (induction articles arbitrary: url_mapping)
  case Nil
  then show ?case by simp
next
  case (Cons article articles)
  from Cons.prems
  have "iterate_items articles (url_mapping(reddit_url article \<mapsto> article_url article)) u = Some a"
    by simp
  from Cons.IH [OF this] show ?case
    by (auto split: if_splits)
qed

lemma scrape_returns:
  assumes "scrape env feed_url w = (Inr (rss, url_mapping), w')"
  obtains links where "entry_links (feedparser_entries env rss) = Inr links"
    and "url_mapping =
      iterate_items (run_handler (parse_qs_of env) (crawler_of env (settings_of env) links) [])
        Map.empty"
    and "w' = w\<lparr>handled := handled w @ crawler_of env (settings_of env) links\<rparr>"
  using assms
  by (auto simp: scrape_def Let_def split: sum.splits if_splits)

lemma scrape_mapping_entry:
  assumes ret: "scrape env feed_url w = (Inr (rss, url_mapping), w')"
    and links: "entry_links (feedparser_entries env rss) = Inr links"
    and entry: "url_mapping u = Some a"
  shows "\<exists>c \<in> set (crawler_of env (settings_of env) links).
           request_url c = u
           \<and> extractor (parse_qs_of env) c [] = Accepted \<lparr>reddit_url = u, article_url = a\<rparr>"
proof -
  let ?calls = "crawler_of env (settings_of env) links"
  from ret links have m: "url_mapping =
      iterate_items (run_handler (parse_qs_of env) ?calls []) Map.empty"
    by (auto elim!: scrape_returns)
  from entry m obtain r where r: "r \<in> set (run_handler (parse_qs_of env) ?calls [])"
    and ru: "reddit_url r = u" and ra: "article_url r = a"
    using iterate_items_entry [of "run_handler (parse_qs_of env) ?calls []" Map.empty u a]
    by auto
  from run_handler_records [OF r] obtain c where c: "c \<in> set ?calls"
    and acc: "extractor (parse_qs_of env) c [] = Accepted r"
    by auto
  from extractor_Accepted_url [OF acc] ru have "request_url c = u" by simp
  moreover from ru ra have "r = \<lparr>reddit_url = u, article_url = a\<rparr>" by simp
  ultimately show ?thesis using c acc by blast
qed

text \<open>
  C1.  When the crawler handles only the requests it was given, every key of the
  mapping that \<open>scrape\<close> returns is one of the submission links read from the feed's
  entries, and every entry of the mapping was pushed by a call of the handler for that
  URL whose extraction was \<open>Accepted\<close> with that article URL: a task that ended
  otherwise (not news, malformed page, or never handled because its fetch failed for
  good) has no entry of its own.
\<close>

theorem scrape_mapping_from_accepted_links:
  assumes given: "only_given_requests (crawler_of env)"
    and ret: "scrape env feed_url w = (Inr (rss, url_mapping), w')"
  shows "\<exists>links. entry_links (feedparser_entries env rss) = Inr links
           \<and> dom url_mapping \<subseteq> set links
           \<and> (\<forall>u a. url_mapping u = Some a \<longrightarrow>
                 (\<exists>c \<in> set (crawler_of env (settings_of env) links).
                    request_url c = u
                    \<and> extractor (parse_qs_of env) c [] = Accepted \<lparr>reddit_url = u, article_url = a\<rparr>))"
proof -
  from ret obtain links where links: "entry_links (feedparser_entries env rss) = Inr links"
    by (rule scrape_returns)
  let ?calls = "crawler_of env (settings_of env) links"
  note accepted = scrape_mapping_entry [OF ret links]
  have "dom url_mapping \<subseteq> set links"
  proof
    fix u assume "u \<in> dom url_mapping"
    then obtain a where "url_mapping u = Some a" by auto
    from accepted [OF this] obtain c where "c \<in> set ?calls" and "request_url c = u" by auto
    with given show "u \<in> set links"
      by (auto simp: only_given_requests_def)
  qed
  with links accepted show ?thesis by blast
qed

lemma three_links_scrape:
  "scrape three_links_env ''feed-url'' empty_world =
     (Inr (''feed'', [''A'' \<mapsto> ''X'']),
      empty_world\<lparr>handled :=
        [\<lparr>request_url = ''A'', page = news_page ''X''\<rparr>,
         \<lparr>request_url = ''B'', page = video_page ''Y''\<rparr>,
         \<lparr>request_url = ''C'', page = []\<rparr>]\<rparr>)"
  by (simp add: scrape_def three_links_env_def example_env_def ok_answer_def empty_world_def
      one_pass_def news_page_handled video_page_handled empty_page_handled)

theorem scrape_mapping_from_accepted_links_witness:
  "only_given_requests (crawler_of three_links_env)
   \<and> scrape three_links_env ''feed-url'' empty_world =
       (Inr (''feed'', [''A'' \<mapsto> ''X'']),
        empty_world\<lparr>handled :=
          [\<lparr>request_url = ''A'', page = news_page ''X''\<rparr>,
           \<lparr>request_url = ''B'', page = video_page ''Y''\<rparr>,
           \<lparr>request_url = ''C'', page = []\<rparr>]\<rparr>)
   \<and> (\<exists>links. entry_links (feedparser_entries three_links_env ''feed'') = Inr links
         \<and> dom [''A'' \<mapsto> ''X''] \<subseteq> set links
         \<and> (\<forall>u a. [''A'' \<mapsto> ''X''] u = Some a \<longrightarrow>
               (\<exists>c \<in> set (crawler_of three_links_env (settings_of three_links_env) links).
                  request_url c = u
                  \<and> extractor (parse_qs_of three_links_env) c [] =
                      Accepted \<lparr>reddit_url = u, article_url = a\<rparr>)))"
proof -
  have given: "only_given_requests (crawler_of three_links_env)"
    by (simp add: three_links_env_def example_env_def one_pass_only_given)
  from scrape_mapping_from_accepted_links [OF given three_links_scrape] given three_links_scrape
  show ?thesis by blast
qed

theorem extraction_deterministic_witness:
  "extractor plain_parse_qs \<lparr>request_url = ''A'', page = news_page ''X''\<rparr> []
     = extractor plain_parse_qs \<lparr>request_url = ''A'', page = news_page ''X''\<rparr>
         [\<lparr>reddit_url = ''A'', article_url = ''X''\<rparr>]
   \<and> extractor plain_parse_qs \<lparr>request_url = ''A'', page = news_page ''X''\<rparr> []
     = Accepted \<lparr>reddit_url = ''A'', article_url = ''X''\<rparr>"
  using extraction_deterministic [of plain_parse_qs "\<lparr>request_url = ''A'', page = news_page ''X''\<rparr>" "[]"
      "[\<lparr>reddit_url = ''A'', article_url = ''X''\<rparr>]"]
  by (simp add: extractor_def news_page_handled)

section \<open>The flair test\<close>

lemma not_news_returns:
  assumes "f_param_value parse_qs (page c) = Inr v" and "v \<noteq> news_flair"
  shows "default_handler parse_qs c dataset = Inr dataset"
  using assms by (simp add: default_handler_def)

lemma not_news_extractor:
  assumes "f_param_value parse_qs (page c) = Inr v" and "v \<noteq> news_flair"
  shows "extractor parse_qs c dataset = NotNews"
  using assms by (simp add: extractor_def default_handler_def)

text \<open>
  Where a request is handled again only after its handler raised, two calls for one
  URL that both returned are one call.
\<close>

lemma returned_call_unique:
  assumes "handled_again_only_after_raise parse_qs cs"
    and "c \<in> set cs" and "\<not> isl (default_handler parse_qs c [])"
    and "c' \<in> set cs" and "\<not> isl (default_handler parse_qs c' [])"
    and "request_url c' = request_url c"
  shows "c' = c"
  using assms
proof (induction cs)
  case Nil
  then show ?case by simp
next
  case (Cons x xs)
  from Cons.prems(1) have x: "isl (default_handler parse_qs x []) \<or> request_url x \<notin> request_url ` set xs"
    and xs: "handled_again_only_after_raise parse_qs xs"
    by simp_all
  consider "c = x" "c' = x" | "c = x" "c' \<in> set xs" | "c \<in> set xs" "c' = x"
    | "c \<in> set xs" "c' \<in> set xs"
    using Cons.prems(2,4) by auto
  then show ?case
  proof cases
    case 1
    then show ?thesis by simp
  next
    case 2
    with x Cons.prems(3) have "request_url c \<notin> request_url ` set xs" by simp
    with 2 Cons.prems(6) show ?thesis by (metis imageI)
  next
    case 3
    with x Cons.prems(5) have "request_url c' \<notin> request_url ` set xs" by simp
    with 3 Cons.prems(6) show ?thesis by (metis imageI)
  next
    case 4
    with xs Cons.prems(3,5,6) show ?thesis by (intro Cons.IH)
  qed
qed

text \<open>
  C3.  Take a run of \<open>scrape\<close> in which the crawler handles a request again only after
  its handler raised.  For a page handled in that run whose first value \<open>v\<close> of the
  parameter \<^verbatim>\<open>f\<close> is anything but the News value, the handler returns without pushing
  a record, whatever the dataset holds (the extraction is \<open>NotNews\<close>), and the request's
  URL is not a key of the mapping that \<open>scrape\<close> returns.
\<close>

theorem not_news_never_in_mapping:
  assumes ret: "scrape env feed_url w = (Inr (rss, url_mapping), w')"
    and links: "entry_links (feedparser_entries env rss) = Inr links"
    and once: "handled_again_only_after_raise (parse_qs_of env)
                 (crawler_of env (settings_of env) links)"
    and call: "c \<in> set (crawler_of env (settings_of env) links)"
    and flair: "f_param_value (parse_qs_of env) (page c) = Inr v"
    and differs: "v \<noteq> news_flair"
  shows "default_handler (parse_qs_of env) c dataset = Inr dataset
         \<and> extractor (parse_qs_of env) c dataset = NotNews
         \<and> request_url c \<notin> dom url_mapping"
proof (intro conjI)
  from flair differs show "default_handler (parse_qs_of env) c dataset = Inr dataset"
    by (rule not_news_returns)
  from flair differs show "extractor (parse_qs_of env) c dataset = NotNews"
    by (rule not_news_extractor)
  show "request_url c \<notin> dom url_mapping"
  proof
    assume "request_url c \<in> dom url_mapping"
    then obtain a where "url_mapping (request_url c) = Some a" by auto
    from scrape_mapping_entry [OF ret links this]
    obtain c' where c': "c' \<in> set (crawler_of env (settings_of env) links)"
      and url: "request_url c' = request_url c"
      and acc: "extractor (parse_qs_of env) c' [] =
        Accepted \<lparr>reddit_url = request_url c, article_url = a\<rparr>"
      by auto
    from acc have returned': "\<not> isl (default_handler (parse_qs_of env) c' [])"
      by (auto simp: extractor_def split: sum.splits)
    from not_news_returns [OF flair differs, of "[]"]
    have returned: "\<not> isl (default_handler (parse_qs_of env) c [])"
      by simp
    from returned_call_unique [OF once call returned c' returned' url] have "c' = c" .
    with acc not_news_extractor [OF flair differs, of "[]"] show False by simp
  qed
qed

lemma video_flair: "f_param_value plain_parse_qs (video_page u) = Inr ''flair_name:Video''"
  by (simp add: handler_eval)

lemma video_flair_differs: "''flair_name:Video'' \<noteq> news_flair"
  by (simp add: news_flair_def)

theorem not_news_never_in_mapping_witness:
  "scrape three_links_env ''feed-url'' empty_world =
       (Inr (''feed'', [''A'' \<mapsto> ''X'']),
        empty_world\<lparr>handled :=
          [\<lparr>request_url = ''A'', page = news_page ''X''\<rparr>,
           \<lparr>request_url = ''B'', page = video_page ''Y''\<rparr>,
           \<lparr>request_url = ''C'', page = []\<rparr>]\<rparr>)
   \<and> entry_links (feedparser_entries three_links_env ''feed'') = Inr [''A'', ''B'', ''C'']
   \<and> handled_again_only_after_raise (parse_qs_of three_links_env)
        (crawler_of three_links_env (settings_of three_links_env) [''A'', ''B'', ''C''])
   \<and> \<lparr>request_url = ''B'', page = video_page ''Y''\<rparr>
        \<in> set (crawler_of three_links_env (settings_of three_links_env) [''A'', ''B'', ''C''])
   \<and> f_param_value (parse_qs_of three_links_env) (video_page ''Y'') = Inr ''flair_name:Video''
   \<and> ''flair_name:Video'' \<noteq> news_flair
   \<and> default_handler (parse_qs_of three_links_env)
        \<lparr>request_url = ''B'', page = video_page ''Y''\<rparr> [] = Inr []
   \<and> ''B'' \<notin> dom [''A'' \<mapsto> ''X'']"
proof -
  have pq: "parse_qs_of three_links_env = plain_parse_qs"
    by (simp add: three_links_env_def example_env_def)
  have calls: "crawler_of three_links_env (settings_of three_links_env) [''A'', ''B'', ''C'']
      = [\<lparr>request_url = ''A'', page = news_page ''X''\<rparr>,
         \<lparr>request_url = ''B'', page = video_page ''Y''\<rparr>,
         \<lparr>request_url = ''C'', page = []\<rparr>]"
    by (simp add: three_links_env_def example_env_def one_pass_def)
  have links: "entry_links (feedparser_entries three_links_env ''feed'') = Inr [''A'', ''B'', ''C'']"
    by (simp add: three_links_env_def example_env_def)
  have once: "handled_again_only_after_raise (parse_qs_of three_links_env)
      (crawler_of three_links_env (settings_of three_links_env) [''A'', ''B'', ''C''])"
    by (simp add: pq calls news_page_handled video_page_handled empty_page_handled)
  have call: "\<lparr>request_url = ''B'', page = video_page ''Y''\<rparr>
      \<in> set (crawler_of three_links_env (settings_of three_links_env) [''A'', ''B'', ''C''])"
    by (simp add: calls)
  have flair: "f_param_value (parse_qs_of three_links_env)
      (page \<lparr>request_url = ''B'', page = video_page ''Y''\<rparr>) = Inr ''flair_name:Video''"
    by (simp add: pq video_flair)
  from not_news_never_in_mapping [OF three_links_scrape links once call flair video_flair_differs,
      of "[]"]
    three_links_scrape links once call flair video_flair_differs
  show ?thesis by simp
qed

section \<open>A page without the anchors the handler reads\<close>

lemma absent_anchor_raises:
  assumes "select_one flair_selector pg = None
           \<or> (f_param_value parse_qs pg = Inr news_flair \<and> select_one article_selector pg = None)"
  shows "default_handler parse_qs \<lparr>request_url = u, page = pg\<rparr> dataset = Inl TypeError"
  using assms
  by (auto simp: default_handler_def f_param_value_def subscript_def)

lemma run_handler_append:
  "run_handler parse_qs (before @ after) dataset
     = run_handler parse_qs after (run_handler parse_qs before dataset)"
  by (induction before arbitrary: dataset) (simp_all split: sum.splits)

text \<open>
  C2, as amended.  For a page in which the flair anchor is absent, or whose flair is
  the News value and in which the outbound article anchor is absent, the handler raises
  \<^verbatim>\<open>TypeError\<close> (the spec's \<open>MalformedPage\<close>) before it pushes anything.  The exception
  does not end the run, and the call leaves nothing behind: when the feed was fetched
  and read, \<open>scrape\<close> returns, with the mapping that the other calls of the handler give.
\<close>

theorem malformed_page_raises_and_leaves_nothing:
  assumes absent: "select_one flair_selector pg = None
                   \<or> (f_param_value (parse_qs_of env) pg = Inr news_flair
                       \<and> select_one article_selector pg = None)"
    and fetched: "client_get env feed_url = Inr response"
    and status: "\<not> raises_for_status env (status_code response)"
    and links: "entry_links (feedparser_entries env (content response)) = Inr links"
    and calls: "crawler_of env (settings_of env) links
                  = before @ \<lparr>request_url = u, page = pg\<rparr> # after"
  shows "default_handler (parse_qs_of env) \<lparr>request_url = u, page = pg\<rparr> dataset = Inl TypeError
         \<and> extractor (parse_qs_of env) \<lparr>request_url = u, page = pg\<rparr> dataset
             = MalformedPage TypeError
         \<and> scrape env feed_url w =
             (Inr (content response,
                   iterate_items (run_handler (parse_qs_of env) (before @ after) []) Map.empty),
              w\<lparr>handled := handled w @ before @ \<lparr>request_url = u, page = pg\<rparr> # after\<rparr>)"
proof -
  have raises: "default_handler (parse_qs_of env) \<lparr>request_url = u, page = pg\<rparr> d = Inl TypeError"
    for d
    using absent by (rule absent_anchor_raises)
  then have ex: "extractor (parse_qs_of env) \<lparr>request_url = u, page = pg\<rparr> dataset
      = MalformedPage TypeError"
    by (simp add: extractor_def)
  have "run_handler (parse_qs_of env) (before @ \<lparr>request_url = u, page = pg\<rparr> # after) []
      = run_handler (parse_qs_of env) (before @ after) []"
    by (simp add: run_handler_append raises)
  with fetched status links calls
  have "scrape env feed_url w =
      (Inr (content response,
            iterate_items (run_handler (parse_qs_of env) (before @ after) []) Map.empty),
       w\<lparr>handled := handled w @ before @ \<lparr>request_url = u, page = pg\<rparr> # after\<rparr>)"
    by (simp add: scrape_def Let_def)
  with raises ex show ?thesis by simp
qed

lemma news_without_link_flair:
  "f_param_value plain_parse_qs news_without_link_page = Inr news_flair"
  by (simp add: handler_eval news_without_link_page_def)

lemma flair_only_extracted:
  "extractor plain_parse_qs \<lparr>request_url = ''A'', page = flair_only_page\<rparr> [] = NotNews"
  by (simp add: extractor_def handler_eval flair_only_page_def)

theorem malformed_page_raises_and_leaves_nothing_witness:
  "f_param_value (parse_qs_of malformed_page_env) news_without_link_page = Inr news_flair
   \<and> select_one article_selector news_without_link_page = None
   \<and> client_get malformed_page_env ''feed-url'' = Inr \<lparr>status_code = 200, content = ''feed''\<rparr>
   \<and> \<not> raises_for_status malformed_page_env 200
   \<and> entry_links (feedparser_entries malformed_page_env ''feed'') = Inr [''A'', ''B'', ''C'']
   \<and> crawler_of malformed_page_env (settings_of malformed_page_env) [''A'', ''B'', ''C'']
       = [\<lparr>request_url = ''A'', page = news_page ''X''\<rparr>]
         @ \<lparr>request_url = ''B'', page = news_without_link_page\<rparr>
         # [\<lparr>request_url = ''C'', page = news_page ''Z''\<rparr>]
   \<and> default_handler (parse_qs_of malformed_page_env)
        \<lparr>request_url = ''B'', page = news_without_link_page\<rparr>
        [\<lparr>reddit_url = ''A'', article_url = ''X''\<rparr>] = Inl TypeError
   \<and> scrape malformed_page_env ''feed-url'' empty_world =
       (Inr (''feed'', [''A'' \<mapsto> ''X'', ''C'' \<mapsto> ''Z'']),
        empty_world\<lparr>handled :=
          [\<lparr>request_url = ''A'', page = news_page ''X''\<rparr>,
           \<lparr>request_url = ''B'', page = news_without_link_page\<rparr>,
           \<lparr>request_url = ''C'', page = news_page ''Z''\<rparr>]\<rparr>)"
proof -
  have pq: "parse_qs_of malformed_page_env = plain_parse_qs"
    by (simp add: malformed_page_env_def example_env_def)
  have sel: "select_one article_selector news_without_link_page = None"
    by (simp add: handler_eval news_without_link_page_def)
  have absent: "select_one flair_selector news_without_link_page = None
      \<or> (f_param_value (parse_qs_of malformed_page_env) news_without_link_page = Inr news_flair
          \<and> select_one article_selector news_without_link_page = None)"
    using news_without_link_flair sel by (simp add: pq)
  have fetched: "client_get malformed_page_env ''feed-url''
      = Inr \<lparr>status_code = 200, content = ''feed''\<rparr>"
    by (simp add: malformed_page_env_def example_env_def ok_answer_def)
  have status: "\<not> raises_for_status malformed_page_env
      (status_code \<lparr>status_code = 200, content = ''feed''\<rparr>)"
    by (simp add: malformed_page_env_def example_env_def)
  have links: "entry_links (feedparser_entries malformed_page_env
      (content \<lparr>status_code = 200, content = ''feed''\<rparr>)) = Inr [''A'', ''B'', ''C'']"
    by (simp add: malformed_page_env_def example_env_def)
  have calls: "crawler_of malformed_page_env (settings_of malformed_page_env) [''A'', ''B'', ''C'']
      = [\<lparr>request_url = ''A'', page = news_page ''X''\<rparr>]
        @ \<lparr>request_url = ''B'', page = news_without_link_page\<rparr>
        # [\<lparr>request_url = ''C'', page = news_page ''Z''\<rparr>]"
    by (simp add: malformed_page_env_def example_env_def one_pass_def)
  have rest: "iterate_items (run_handler (parse_qs_of malformed_page_env)
      ([\<lparr>request_url = ''A'', page = news_page ''X''\<rparr>]
       @ [\<lparr>request_url = ''C'', page = news_page ''Z''\<rparr>]) []) Map.empty
      = [''A'' \<mapsto> ''X'', ''C'' \<mapsto> ''Z'']"
    by (simp add: pq news_page_handled)
  from malformed_page_raises_and_leaves_nothing [OF absent fetched status links calls,
      of "[\<lparr>reddit_url = ''A'', article_url = ''X''\<rparr>]" empty_world]
    news_without_link_flair sel fetched status links calls rest
  show ?thesis by (simp add: pq empty_world_def)
qed

text \<open>
  The claim as stated fails for a page whose flair is not the News value and in which
  the outbound article anchor is absent: the handler returns at the flair test, before
  it looks for that anchor, and the extraction is \<open>NotNews\<close>, not \<open>MalformedPage\<close>.
\<close>

theorem absent_article_anchor_not_news_counterexample:
  "select_one article_selector flair_only_page = None
   \<and> default_handler plain_parse_qs \<lparr>request_url = ''A'', page = flair_only_page\<rparr> [] = Inr []
   \<and> extractor plain_parse_qs \<lparr>request_url = ''A'', page = flair_only_page\<rparr> [] = NotNews"
  using flair_only_extracted
  by (simp add: handler_eval flair_only_page_def)

section \<open>A request handled again\<close>

text \<open>
  The program leaves it to the crawler whether a request whose handler raised is
  handled again.  With a crawler that does, the later call counts: the first page
  fetched for \<^verbatim>\<open>A\<close> has the News flair and no outbound anchor, the second has both, and
  \<^verbatim>\<open>A\<close> is a key of the mapping.
\<close>

lemma news_without_link_handled:
  "default_handler plain_parse_qs \<lparr>request_url = r, page = news_without_link_page\<rparr> dataset
     = Inl TypeError"
  by (simp add: handler_eval news_without_link_page_def)

lemma retried_page_scrape:
  "scrape retried_page_env ''feed-url'' empty_world =
     (Inr (''feed'', [''A'' \<mapsto> ''X'']),
      empty_world\<lparr>handled :=
        [\<lparr>request_url = ''A'', page = news_without_link_page\<rparr>,
         \<lparr>request_url = ''A'', page = news_page ''X''\<rparr>]\<rparr>)"
  by (simp add: scrape_def retried_page_env_def example_env_def ok_answer_def empty_world_def
      retry_pass_def news_page_handled news_without_link_handled)

lemma retried_page_handled_again_after_raise:
  "handled_again_only_after_raise (parse_qs_of retried_page_env)
     (crawler_of retried_page_env (settings_of retried_page_env) [''A''])"
  by (simp add: retried_page_env_def example_env_def retry_pass_def
      news_page_handled news_without_link_handled)

section \<open>Failure of the feed request\<close>

text \<open>
  C7.  When the GET of the feed fails (\<^verbatim>\<open>client.get\<close> raises, or
  \<^verbatim>\<open>raise_for_status\<close> raises for the status of the answer), \<open>scrape\<close> and \<open>main\<close>
  raise that exception and leave the world as it was: no call of the handler was made
  and no file was written.
\<close>

theorem feed_failure_aborts:
  assumes "(\<exists>e. client_get env feed_url = Inl e)
           \<or> (\<exists>r. client_get env feed_url = Inr r \<and> raises_for_status env (status_code r))"
  shows "scrape env feed_url w =
           (Inl (case client_get env feed_url of Inl e \<Rightarrow> e | Inr r \<Rightarrow> HTTPStatusError), w)
         \<and> main env feed_url output_path w =
           (Inl (case client_get env feed_url of Inl e \<Rightarrow> e | Inr r \<Rightarrow> HTTPStatusError), w)"
  using assms by (auto simp: main_def scrape_def)

theorem feed_failure_aborts_witness:
  "client_get (example_env (Inr \<lparr>status_code = 404, content = ''Not Found''\<rparr>) [] (one_pass [])
       (Element ''feed'' [] [] [] [])) ''feed-url''
     = Inr \<lparr>status_code = 404, content = ''Not Found''\<rparr>
   \<and> raises_for_status (example_env (Inr \<lparr>status_code = 404, content = ''Not Found''\<rparr>) []
       (one_pass []) (Element ''feed'' [] [] [] [])) 404
   \<and> main (example_env (Inr \<lparr>status_code = 404, content = ''Not Found''\<rparr>) [] (one_pass [])
       (Element ''feed'' [] [] [] [])) ''feed-url'' ''feed.xml'' empty_world
     = (Inl HTTPStatusError, empty_world)
   \<and> main (example_env (Inl TransportError) [] (one_pass []) (Element ''feed'' [] [] [] []))
       ''feed-url'' ''feed.xml'' empty_world
     = (Inl TransportError, empty_world)"
  using feed_failure_aborts [of "example_env (Inr \<lparr>status_code = 404, content = ''Not Found''\<rparr>) []
        (one_pass []) (Element ''feed'' [] [] [] [])" "''feed-url''" empty_world "''feed.xml''"]
    feed_failure_aborts [of "example_env (Inl TransportError) [] (one_pass [])
        (Element ''feed'' [] [] [] [])" "''feed-url''" empty_world "''feed.xml''"]
  by (simp add: example_env_def)

section \<open>The scheduler of the spec handles only the links it was given\<close>

lemma set_without_nth:
  "k < length xs \<Longrightarrow> set xs = insert (xs ! k) (set (without_nth k xs))"
proof -
  assume "k < length xs"
  then have "xs = take k xs @ xs ! k # drop (Suc k) xs" by (rule id_take_nth_drop)
  then have "set xs = set (take k xs @ xs ! k # drop (Suc k) xs)" by simp
  then show ?thesis by (simp add: without_nth_def)
qed

text \<open>The effect of a finished cycle.\<close>

lemma finish_cycle_effect:
  assumes "s' = finish_cycle parse_qs settings s k answer"
  defines "t \<equiv> in_flight s ! k"
  shows "in_flight s' = without_nth k (in_flight s)"
    and "(queue s' = queue s @ [t\<lparr>attempt_count := Suc (attempt_count t)\<rparr>]
          \<and> journal s' = journal s @ [(tid t, answer, Requeued)]
          \<and> Suc (attempt_count t) < max_request_retries settings)
        \<or> (queue s' = queue s
            \<and> (\<exists>e. journal s' = journal s @ [(tid t, answer, e)] \<and> e \<noteq> Requeued
                 \<and> (\<forall>n. e = Exhausted n \<longrightarrow>
                       n = Suc (attempt_count t) \<and> \<not> Suc (attempt_count t) < max_request_retries settings)))"
  using assms
  by (auto simp: finish_cycle_def Let_def split: fetch_outcome.splits)


lemma pop_effect:
  "set (live (step parse_qs settings s Pop)) = set (live s)"
  "journal (step parse_qs settings s Pop) = journal s"
  "store (step parse_qs settings s Pop) = store s"
  "calls (step parse_qs settings s Pop) = calls s"
  by (auto simp: live_def split: list.splits)

lemma run_handler_snoc:
  "run_handler parse_qs (cs @ [c]) dataset =
     (case default_handler parse_qs c (run_handler parse_qs cs dataset) of
        Inl e \<Rightarrow> run_handler parse_qs cs dataset
      | Inr dataset' \<Rightarrow> dataset')"
  by (induction cs arbitrary: dataset) (auto split: sum.splits)

lemma finish_cycle_store:
  assumes s': "s' = finish_cycle parse_qs settings s k answer"
  defines "t \<equiv> in_flight s ! k"
  shows "\<exists>e. journal s' = journal s @ [(tid t, answer, e)]
           \<and> store s' = store s @ accepted_of (tid t, answer, e)
           \<and> (\<forall>r. e = Extracted (Accepted r) \<longrightarrow> reddit_url r = url t)
           \<and> ((calls s' = calls s \<and> store s' = store s)
                \<or> (\<exists>body. calls s' = calls s @ [\<lparr>request_url = url t, page = body\<rparr>]
                     \<and> store s' =
                         (case default_handler parse_qs \<lparr>request_url = url t, page = body\<rparr> (store s) of
                            Inl e \<Rightarrow> store s
                          | Inr dataset \<Rightarrow> dataset)))"
proof (cases "classify (additional_http_error_status_codes settings) answer")
  case (Success body status)
  let ?c = "\<lparr>request_url = url t, page = body\<rparr>"
  from Success s' have j: "journal s' = journal s @ [(tid t, answer, Extracted (extractor parse_qs ?c (store s)))]"
    and st: "store s' = (case default_handler parse_qs ?c (store s) of
                            Inl e \<Rightarrow> store s
                          | Inr dataset \<Rightarrow> dataset)"
    and cl: "calls s' = calls s @ [?c]"
    by (simp_all add: finish_cycle_def Let_def t_def)
  have "store s' = store s @ accepted_of (tid t, answer, Extracted (extractor parse_qs ?c (store s)))"
    unfolding st
    by (cases "extractor parse_qs ?c (store s)")
      (simp_all add: default_handler_extractor [of parse_qs ?c "store s"])
  moreover have "\<forall>r. Extracted (extractor parse_qs ?c (store s)) = Extracted (Accepted r)
      \<longrightarrow> reddit_url r = url t"
    using extractor_Accepted_url [of parse_qs ?c "store s"] by simp
  ultimately show ?thesis using j st cl by blast
next
  case RetryableFailure
  with s' show ?thesis
    by (auto simp: finish_cycle_def Let_def t_def)
next
  case FatalFailure
  with s' show ?thesis
    by (auto simp: finish_cycle_def Let_def t_def)
qed

lemma live_after_cycle:
  assumes s': "s' = finish_cycle parse_qs settings s k answer" and k: "k < length (in_flight s)"
    and u: "u \<in> set (live s')"
  shows "\<exists>v \<in> set (live s). tid u = tid v \<and> url u = url v"
proof -
  define t where "t = in_flight s ! k"
  from set_without_nth [OF k]
  have sub: "set (without_nth k (in_flight s)) \<subseteq> set (in_flight s)" by auto
  from k have mem: "t \<in> set (live s)" by (simp add: t_def live_def)
  from finish_cycle_effect [OF s', folded t_def] u
  have "u = t\<lparr>attempt_count := Suc (attempt_count t)\<rparr> \<or> u \<in> set (queue s)
      \<or> u \<in> set (without_nth k (in_flight s))"
    by (auto simp: live_def)
  then show ?thesis
  proof (elim disjE)
    assume "u = t\<lparr>attempt_count := Suc (attempt_count t)\<rparr>"
    then have "tid u = tid t \<and> url u = url t" by simp
    with mem show ?thesis by blast
  next
    assume "u \<in> set (queue s)"
    then have "u \<in> set (live s)" by (simp add: live_def)
    then show ?thesis by blast
  next
    assume "u \<in> set (without_nth k (in_flight s))"
    with sub have "u \<in> set (live s)" by (auto simp: live_def)
    then show ?thesis by blast
  qed
qed

lemma step_store_inv:
  assumes inv: "store_inv parse_qs links s"
  shows "store_inv parse_qs links (step parse_qs settings s ev)"
proof (cases ev)
  case Pop
  have "store_inv parse_qs links (step parse_qs settings s Pop) = store_inv parse_qs links s"
    by (simp only: store_inv_def pop_effect)
  with inv Pop show ?thesis by simp
next
  case (Answered k answer)
  show ?thesis
  proof (cases "k < length (in_flight s)")
    case False
    with Answered inv show ?thesis by simp
  next
    case True
    define s' where "s' = finish_cycle parse_qs settings s k answer"
    define t where "t = in_flight s ! k"
    from True have "t \<in> set (live s)" by (simp add: t_def live_def)
    with inv have t: "tid t < length links" "url t = links ! tid t"
      by (auto simp: store_inv_def)
    then have url_t: "url t \<in> set links" by simp
    from finish_cycle_store [OF s'_def, folded t_def] obtain e where
      j: "journal s' = journal s @ [(tid t, answer, e)]"
      and st: "store s' = store s @ accepted_of (tid t, answer, e)"
      and acc: "\<forall>r. e = Extracted (Accepted r) \<longrightarrow> reddit_url r = url t"
      and cl: "(calls s' = calls s \<and> store s' = store s)
                \<or> (\<exists>body. calls s' = calls s @ [\<lparr>request_url = url t, page = body\<rparr>]
                     \<and> store s' =
                         (case default_handler parse_qs \<lparr>request_url = url t, page = body\<rparr> (store s) of
                            Inl e \<Rightarrow> store s
                          | Inr dataset \<Rightarrow> dataset))"
      by blast
    from inv [unfolded store_inv_def] have old: "store s = concat (map accepted_of (journal s))"
      "\<forall>p \<in> set (journal s). fst p < length links
            \<and> (\<forall>r. snd (snd p) = Extracted (Accepted r) \<longrightarrow> reddit_url r = links ! fst p)"
      "store s = run_handler parse_qs (calls s) []"
      "request_url ` set (calls s) \<subseteq> set links"
      "\<forall>t \<in> set (live s). tid t < length links \<and> url t = links ! tid t"
      by blast+
    have 1: "store s' = concat (map accepted_of (journal s'))"
      using st j old(1) by simp
    have 2: "\<forall>p \<in> set (journal s'). fst p < length links
            \<and> (\<forall>r. snd (snd p) = Extracted (Accepted r) \<longrightarrow> reddit_url r = links ! fst p)"
      using j old(2) t acc by auto
    have 3: "store s' = run_handler parse_qs (calls s') [] \<and> request_url ` set (calls s') \<subseteq> set links"
      using cl
    proof (elim disjE conjE exE)
      assume "calls s' = calls s" and "store s' = store s"
      with old(3,4) show ?thesis by simp
    next
      fix body
      assume c: "calls s' = calls s @ [\<lparr>request_url = url t, page = body\<rparr>]"
        and "store s' =
          (case default_handler parse_qs \<lparr>request_url = url t, page = body\<rparr> (store s) of
             Inl e \<Rightarrow> store s
           | Inr dataset \<Rightarrow> dataset)"
      then have "store s' = run_handler parse_qs (calls s') []"
        by (simp only: c run_handler_snoc old(3) [symmetric])
      moreover from c old(4) url_t have "request_url ` set (calls s') \<subseteq> set links"
        by auto
      ultimately show ?thesis by simp
    qed
    have 4: "\<forall>u \<in> set (live s'). tid u < length links \<and> url u = links ! tid u"
    proof
      fix u assume "u \<in> set (live s')"
      from live_after_cycle [OF s'_def True this] old(5) show "tid u < length links \<and> url u = links ! tid u"
        by auto
    qed
    from 1 2 3 4 have "store_inv parse_qs links s'" by (simp add: store_inv_def)
    with Answered True show ?thesis by (simp add: s'_def)
  qed
qed

lemma init_store_inv: "store_inv parse_qs links (init links)"
  by (auto simp: store_inv_def init_def live_def in_set_enumerate_eq)

lemma run_store_inv: "store_inv parse_qs links (run parse_qs settings events links)"
proof -
  have "store_inv parse_qs links (foldl (step parse_qs settings) s events)"
    if "store_inv parse_qs links s" for s
    using that
  proof (induction events arbitrary: s)
    case Nil
    then show ?case by simp
  next
    case (Cons ev events)
    from Cons.IH [OF step_store_inv [OF Cons.prems]] show ?case by simp
  qed
  from this [OF init_store_inv] show ?thesis by (simp add: run_def)
qed

lemma spec_crawler_only_given: "only_given_requests (spec_crawler parse_qs events)"
  using run_store_inv by (simp add: only_given_requests_def spec_crawler_def store_inv_def)

section \<open>The feed filter\<close>

lemma rewritten_in_place:
  "rewritten m (Element t a tx cs ta) = Element t a tx (concat (map (in_place_of m) cs)) ta"
  by (simp add: in_place_of_def [abs_def])

lemma el_tag_with_href: "el_tag (with_href v l) = el_tag l"
  by (simp add: with_href_def)

lemma atom_tags_differ: "atom_link \<noteq> atom_entry"
  by (simp add: atom_link_def atom_entry_def)

lemma el_tag_rewritten: "el_tag (rewritten m e) = el_tag e"
  by (cases e) simp

lemma el_attrib_rewritten: "el_attrib (rewritten m e) = el_attrib e"
  by (cases e) simp

lemma el_tag_with_link: "el_tag (with_link v e) = el_tag e"
  by (simp add: with_link_def)

text \<open>
  The visits inside an entry leave the attributes of its link as they are: putting the
  attributes of the link that \<^verbatim>\<open>set\<close> returned on the first link of the filtered
  children is setting the \<^verbatim>\<open>href\<close> of that link.
\<close>

lemma put_first_link_in_place:
  assumes "find (\<lambda>c. el_tag c = atom_link) cs = Some l"
  shows "put_first_link (with_href v l) (concat (map (in_place_of m) cs))
           = set_first_link v (concat (map (in_place_of m) cs))"
  using assms
proof (induction cs)
  case Nil
  then show ?case by simp
next
  case (Cons c cs)
  show ?case
  proof (cases "el_tag c = atom_link")
    case True
    with Cons.prems have "l = c" by simp
    moreover from True atom_tags_differ have "in_place_of m c = [rewritten m c]"
      by (simp add: in_place_of_def)
    ultimately show ?thesis
      using True by (simp add: el_tag_rewritten el_attrib_rewritten with_href_def)
  next
    case False
    with Cons.prems have rest: "find (\<lambda>c. el_tag c = atom_link) cs = Some l" by simp
    from False have "\<forall>x \<in> set (in_place_of m c). el_tag x \<noteq> atom_link"
      by (auto simp: in_place_of_def el_tag_rewritten el_tag_with_link split: option.splits)
    moreover have "in_place_of m c = [] \<or> (\<exists>x. in_place_of m c = [x])"
      by (simp add: in_place_of_def split: option.splits)
    ultimately show ?thesis
      using Cons.IH [OF rest] by auto
  qed
qed

lemma entry_verdict_mapped:
  "entry_verdict compatible m e =
     (case find_link e of
        None \<Rightarrow> Inl AttributeError
      | Some l \<Rightarrow>
          (case mapped_href m e of
             None \<Rightarrow> Inr Removing
           | Some v \<Rightarrow> if compatible v then Inr (Keeping (with_href v l)) else Inl ValueError))"
  by (simp add: entry_verdict_def mapped_href_def set_href_def split: option.splits)

lemma entries_have_links_Element:
  "entries_have_links (Element t a tx cs ta) \<longleftrightarrow>
     (t = atom_entry \<longrightarrow> find_link (Element t a tx cs ta) \<noteq> None)
     \<and> list_all entries_have_links cs"
  by (auto simp: entries_have_links_def list_all_iff)

lemma values_compatible_Element:
  "values_compatible compatible m (Element t a tx cs ta) \<longleftrightarrow>
     (t = atom_entry \<longrightarrow>
        (case mapped_href m (Element t a tx cs ta) of None \<Rightarrow> True | Some v \<Rightarrow> compatible v))
     \<and> list_all (values_compatible compatible m) cs"
  by (auto simp: values_compatible_def list_all_iff)

text \<open>
  The loop succeeds exactly when every entry has a link and every mapped value is
  accepted by lxml, and then it returns what the filter of the spec describes.
\<close>

lemma filter_refines:
  "filter_element compatible m e =
     (if entries_have_links e \<and> values_compatible compatible m e
      then Inr (if el_tag e = atom_entry
                then (case mapped_href m e of
                        None \<Rightarrow> None
                      | Some v \<Rightarrow> Some (with_link v (rewritten m e)))
                else Some (rewritten m e))
      else Inl (case filter_element compatible m e of Inl x \<Rightarrow> x | Inr r \<Rightarrow> AttributeError))"
  "filter_children compatible m cs =
     (if list_all entries_have_links cs \<and> list_all (values_compatible compatible m) cs
      then Inr (concat (map (\<lambda>c. if el_tag c = atom_entry
                           then (case mapped_href m c of
                                   None \<Rightarrow> []
                                 | Some v \<Rightarrow> [with_link v (rewritten m c)])
                           else [rewritten m c]) cs))
      else Inl (case filter_children compatible m cs of Inl x \<Rightarrow> x | Inr r \<Rightarrow> AttributeError))"
proof (induction compatible m e and compatible m cs rule: filter_element_filter_children.induct)
  case (1 compatible m t a tx cs ta)
  let ?e = "Element t a tx cs ta"
  show ?case
  proof (cases "t = atom_entry")
    case True
    show ?thesis
    proof (cases "find_link ?e")
      case None
      with True show ?thesis
        by (simp add: entry_verdict_mapped entries_have_links_Element)
    next
      case l: (Some l)
      show ?thesis
      proof (cases "mapped_href m ?e")
        case None
        with l have v: "entry_verdict compatible m ?e = Inr Removing"
          by (simp add: entry_verdict_mapped)
        from "1.IH"(2) [OF True v refl] True v None l show ?thesis
          by (cases "filter_children compatible m cs")
            (auto simp: entries_have_links_Element values_compatible_Element split: if_splits)
      next
        case (Some u)
        show ?thesis
        proof (cases "compatible u")
          case ok: True
          with l Some have v: "entry_verdict compatible m ?e = Inr (Keeping (with_href u l))"
            by (simp add: entry_verdict_mapped)
          from l have "find (\<lambda>c. el_tag c = atom_link) cs = Some l"
            by (simp add: find_link_def)
          note put = put_first_link_in_place [OF this, of u m, unfolded in_place_of_def [abs_def]]
          from "1.IH"(1) [OF True v refl] True v Some l ok put show ?thesis
            by (cases "filter_children compatible m cs")
              (auto simp: with_link_def entries_have_links_Element values_compatible_Element
                split: if_splits)
        next
          case False
          with l Some have v: "entry_verdict compatible m ?e = Inl ValueError"
            by (simp add: entry_verdict_mapped)
          with True Some False show ?thesis
            by (simp add: values_compatible_Element)
        qed
      qed
    qed
  next
    case False
    from "1.IH"(3) [OF False] False show ?thesis
      by (cases "filter_children compatible m cs")
        (auto simp: entries_have_links_Element values_compatible_Element split: if_splits)
  qed
next
  case (2 compatible m)
  show ?case by simp
next
  case (3 compatible m c cs)
  show ?case
  proof (cases "filter_element compatible m c")
    case (Inl x)
    with "3.IH"(1) show ?thesis by (auto split: if_splits)
  next
    case (Inr k)
    from "3.IH"(2) [OF Inr] "3.IH"(1) Inr show ?thesis
      by (cases "filter_children compatible m cs") (auto split: if_splits option.splits)
  qed
qed

lemma filter_feed_succeeds:
  assumes "entries_have_links xml" and "values_compatible compatible m xml"
    and "el_tag xml = atom_entry \<longrightarrow> mapped_href m xml \<noteq> None"
  shows "filter_feed compatible m xml = Inr (spec_filter m xml)"
proof -
  have "entry_verdict compatible m xml \<noteq> Inr Removing" if "el_tag xml = atom_entry"
    using that assms(3) by (auto simp: entry_verdict_mapped split: option.splits)
  with assms show ?thesis
    by (auto simp: filter_feed_def filter_refines(1) spec_filter_def split: option.splits)
qed

lemma filter_element_Inr:
  assumes "filter_element compatible m e = Inr r"
  shows "entries_have_links e \<and> values_compatible compatible m e"
proof (rule ccontr)
  assume "\<not> (entries_have_links e \<and> values_compatible compatible m e)"
  then have "filter_element compatible m e =
      Inl (case filter_element compatible m e of Inl x \<Rightarrow> x | Inr r \<Rightarrow> AttributeError)"
    by (subst filter_refines(1)) simp
  with assms show False by simp
qed

lemma filter_feed_success:
  assumes "filter_feed compatible m xml = Inr xml'"
  shows "xml' = spec_filter m xml" and "entries_have_links xml"
    and "values_compatible compatible m xml"
    and "el_tag xml = atom_entry \<longrightarrow> mapped_href m xml \<noteq> None"
proof -
  from assms have guard: "\<not> (el_tag xml = atom_entry \<and> entry_verdict compatible m xml = Inr Removing)"
    by (auto simp: filter_feed_def split: if_splits)
  with assms obtain r where r: "filter_element compatible m xml = Inr r"
    by (cases "filter_element compatible m xml") (auto simp: filter_feed_def)
  from filter_element_Inr [OF r]
  show ok1: "entries_have_links xml" and ok2: "values_compatible compatible m xml" by simp_all
  show root: "el_tag xml = atom_entry \<longrightarrow> mapped_href m xml \<noteq> None"
  proof
    assume e: "el_tag xml = atom_entry"
    show "mapped_href m xml \<noteq> None"
    proof
      assume none: "mapped_href m xml = None"
      from e ok1 have "find_link xml \<noteq> None"
        by (cases xml) (simp add: entries_have_links_Element)
      with none have "entry_verdict compatible m xml = Inr Removing"
        by (auto simp: entry_verdict_mapped)
      with guard e show False by simp
    qed
  qed
  from filter_feed_succeeds [OF ok1 ok2 root] assms show "xml' = spec_filter m xml"
    by simp
qed

lemma filter_set_attrib:
  "filter (\<lambda>(k, w). k \<noteq> a) (set_attrib a v attrib) = filter (\<lambda>(k, w). k \<noteq> a) attrib"
  by (induction attrib) auto

lemma del_href_with_href: "del_href (with_href v l) = del_href l"
  by (simp add: del_href_def with_href_def filter_set_attrib)

lemma del_first_set_first: "del_first_link_href (set_first_link v cs) = del_first_link_href cs"
  by (induction cs) (auto simp: del_href_with_href el_tag_with_href)

lemma without_with_link: "without_link_href (with_link v e) = without_link_href e"
  by (simp add: without_link_href_def with_link_def del_first_set_first)

lemma entries_Nil_tag: "entries e = [] \<Longrightarrow> el_tag e \<noteq> atom_entry"
  by (cases e) auto

lemma concat_map_singletons: "(\<And>c. c \<in> set cs \<Longrightarrow> f c = [c]) \<Longrightarrow> concat (map f cs) = cs"
  by (induction cs) auto

lemma entries_concat_in_place:
  "(\<And>c. c \<in> set cs \<Longrightarrow>
      map w (concat (map entries (f c))) = map w (filter P (entries c))) \<Longrightarrow>
   map w (concat (map entries (concat (map f cs)))) = map w (filter P (concat (map entries cs)))"
  by (induction cs) auto

lemma rewritten_no_entries: "entries e = [] \<Longrightarrow> rewritten m e = e"
proof (induction e)
  case (Element t a tx cs ta)
  from Element.prems have kids: "\<forall>c \<in> set cs. entries c = []" and "t \<noteq> atom_entry"
    by (auto split: if_splits)
  have "in_place_of m c = [c]" if "c \<in> set cs" for c
  proof -
    from that kids have e: "entries c = []" by simp
    then have "el_tag c \<noteq> atom_entry" by (rule entries_Nil_tag)
    with Element.IH [OF that e] show ?thesis by (simp add: in_place_of_def)
  qed
  then have "concat (map (in_place_of m) cs) = cs" by (rule concat_map_singletons)
  then show ?case by (simp only: rewritten_in_place)
qed

lemma entries_set_first_link:
  "\<forall>c \<in> set cs. entries c = [] \<Longrightarrow> concat (map entries (set_first_link v cs)) = []"
proof (induction cs)
  case Nil
  then show ?case by simp
next
  case (Cons c cs)
  then have c: "entries c = []" by simp
  then have "entries (with_href v c) = []"
    by (cases c) (auto simp: with_href_def split: if_splits)
  with Cons c show ?case by auto
qed

lemma no_nested_entries_Element:
  "no_nested_entries (Element t a tx cs ta) \<longleftrightarrow>
     (t = atom_entry \<longrightarrow> list_all (\<lambda>c. entries c = []) cs) \<and> list_all no_nested_entries cs"
proof -
  have "list_all P (concat (map entries cs)) \<longleftrightarrow> list_all (\<lambda>c. list_all P (entries c)) cs" for P
    by (induction cs) simp_all
  then show ?thesis
    unfolding no_nested_entries_def by simp
qed

lemma no_nested_entries_child:
  "no_nested_entries (Element t a tx cs ta) \<Longrightarrow> c \<in> set cs \<Longrightarrow> no_nested_entries c"
  unfolding no_nested_entries_Element by (simp add: list_all_iff)

lemma entries_in_place:
  "no_nested_entries e \<Longrightarrow>
     map without_link_href (concat (map entries (in_place_of m e)))
       = map without_link_href (filter (\<lambda>x. mapped_href m x \<noteq> None) (entries e))"
proof (induction e)
  case (Element t a tx cs ta)
  let ?e = "Element t a tx cs ta"
  show ?case
  proof (cases "t = atom_entry")
    case True
    with Element.prems have kids: "\<forall>c \<in> set cs. entries c = []"
      by (simp add: no_nested_entries_def list_all_iff)
    then have only: "entries ?e = [?e]" using True by simp
    have "in_place_of m c = [c]" if "c \<in> set cs" for c
      using that kids rewritten_no_entries [of c m] entries_Nil_tag [of c]
      by (simp add: in_place_of_def)
    then have "concat (map (in_place_of m) cs) = cs" by (rule concat_map_singletons)
    then have same: "rewritten m ?e = ?e" by (simp only: rewritten_in_place)
    show ?thesis
    proof (cases "mapped_href m ?e")
      case None
      with True only show ?thesis by (simp add: in_place_of_def)
    next
      case (Some v)
      have image: "entries (with_link v ?e) = [with_link v ?e]"
        using True entries_set_first_link [OF kids, of v] by (simp add: with_link_def)
      have "in_place_of m ?e = [with_link v (rewritten m ?e)]"
        using True Some by (simp add: in_place_of_def del: rewritten.simps)
      then have "in_place_of m ?e = [with_link v ?e]"
        by (simp only: same)
      then have "map without_link_href (concat (map entries (in_place_of m ?e)))
          = [without_link_href ?e]"
        by (simp only: image without_with_link list.map concat.simps append_Nil2)
      moreover have "map without_link_href (filter (\<lambda>x. mapped_href m x \<noteq> None) (entries ?e))
          = [without_link_href ?e]"
        by (simp only: only Some filter.simps list.map option.distinct not_False_eq_True if_True)
      ultimately show ?thesis by (rule trans [OF _ sym])
    qed
  next
    case False
    have each: "map without_link_href (concat (map entries (in_place_of m c)))
        = map without_link_href (filter (\<lambda>x. mapped_href m x \<noteq> None) (entries c))"
      if "c \<in> set cs" for c
      using Element.IH [OF that no_nested_entries_child [OF Element.prems that]] .
    have "map without_link_href (concat (map entries (concat (map (in_place_of m) cs))))
        = map without_link_href (filter (\<lambda>x. mapped_href m x \<noteq> None) (concat (map entries cs)))"
      by (rule entries_concat_in_place) (rule each)
    moreover have "in_place_of m ?e = [Element t a tx (concat (map (in_place_of m) cs)) ta]"
      using False by (simp only: in_place_of_def rewritten_in_place element.sel if_False)
    moreover have "entries ?e = concat (map entries cs)"
      using False by simp
    ultimately show ?thesis using False by simp
  qed
qed

lemma map_of_set_attrib: "map_of (set_attrib a v attrib) a = Some v"
  by (induction attrib) auto

lemma get_href_with_href: "get_href (with_href v l) = Some v"
  by (simp add: get_href_def with_href_def map_of_set_attrib)

lemma find_set_first_link:
  "find (\<lambda>c. el_tag c = atom_link) (set_first_link v cs)
     = map_option (with_href v) (find (\<lambda>c. el_tag c = atom_link) cs)"
  by (induction cs) (simp_all add: el_tag_with_href)

lemma find_link_in_place:
  "find (\<lambda>c. el_tag c = atom_link) (concat (map (in_place_of m) cs))
     = map_option (rewritten m) (find (\<lambda>c. el_tag c = atom_link) cs)"
proof (induction cs)
  case Nil
  show ?case by simp
next
  case (Cons c cs)
  show ?case
  proof (cases "el_tag c = atom_entry")
    case True
    with atom_tags_differ have "el_tag c \<noteq> atom_link" by simp
    with True Cons atom_tags_differ show ?thesis
      by (simp add: in_place_of_def el_tag_with_link el_tag_rewritten split: option.splits)
  next
    case False
    with Cons show ?thesis
      by (simp add: in_place_of_def el_tag_rewritten)
  qed
qed

text \<open>After the rewrite, the link of a retained entry points to the mapped article URL.\<close>

lemma link_href_image:
  assumes "mapped_href m e = Some v"
  shows "link_href (with_link v (rewritten m e)) = Some v"
proof (cases e)
  case (Element t a tx cs ta)
  from assms obtain l where "find_link e = Some l"
    by (auto simp: mapped_href_def split: option.splits)
  with Element have l: "find (\<lambda>c. el_tag c = atom_link) cs = Some l"
    by (simp add: find_link_def)
  have "find_link (with_link v (rewritten m e)) = Some (with_href v (rewritten m l))"
    unfolding Element rewritten_in_place
    by (simp add: find_link_def with_link_def find_set_first_link find_link_in_place l)
  then show ?thesis
    by (simp add: link_href_def get_href_with_href)
qed

lemma entries_with_href: "el_tag c = atom_link \<Longrightarrow> entries (with_href v c) = entries c"
  using atom_tags_differ by (cases c) (simp add: with_href_def)

lemma entries_set_first: "concat (map entries (set_first_link v cs)) = concat (map entries cs)"
  by (induction cs) (simp_all add: entries_with_href)

lemma entries_with_link:
  "entries (with_link v e) =
     (if el_tag e = atom_entry then [with_link v e] else []) @ concat (map entries (el_children e))"
  by (cases e) (simp add: with_link_def entries_set_first)

lemma entries_child: "c \<in> set (el_children x) \<Longrightarrow> set (entries c) \<subseteq> set (entries x)"
  by (cases x) auto

lemma entries_self: "el_tag x = atom_entry \<Longrightarrow> x \<in> set (entries x)"
  by (cases x) simp

text \<open>
  Every entry of the output stands for an entry of the input whose link is a key of the
  mapping, and its link points to the mapped article URL.
\<close>

lemma entries_of_image:
  "e' \<in> set (concat (map entries (in_place_of m x))) \<Longrightarrow>
     \<exists>e \<in> set (entries x). mapped_href m e \<noteq> None \<and> link_href e' = mapped_href m e"
proof (induction x arbitrary: e')
  case (Element t a tx cs ta)
  let ?x = "Element t a tx cs ta"
  let ?ys = "concat (map (in_place_of m) cs)"
  have below: "\<exists>e \<in> set (entries ?x). mapped_href m e \<noteq> None \<and> link_href y = mapped_href m e"
    if "y \<in> set (concat (map entries ?ys))" for y
  proof -
    from that obtain c where c: "c \<in> set cs"
      and y: "y \<in> set (concat (map entries (in_place_of m c)))"
      by auto
    from Element.IH [OF c y] obtain e where "e \<in> set (entries c)"
      and "mapped_href m e \<noteq> None \<and> link_href y = mapped_href m e" by blast
    moreover from c have "set (entries c) \<subseteq> set (entries ?x)" by auto
    ultimately show ?thesis by blast
  qed
  have kids: "el_children (rewritten m ?x) = ?ys"
    by (simp only: rewritten_in_place element.sel)
  show ?case
  proof (cases "t = atom_entry")
    case True
    show ?thesis
    proof (cases "mapped_href m ?x")
      case None
      with True Element.prems show ?thesis by (simp add: in_place_of_def)
    next
      case (Some v)
      with True have "in_place_of m ?x = [with_link v (rewritten m ?x)]"
        by (simp add: in_place_of_def del: rewritten.simps)
      with Element.prems have "e' \<in> set (entries (with_link v (rewritten m ?x)))" by simp
      then have "e' = with_link v (rewritten m ?x) \<or> e' \<in> set (concat (map entries ?ys))"
        by (simp only: entries_with_link kids) (auto split: if_splits)
      then show ?thesis
      proof
        assume "e' = with_link v (rewritten m ?x)"
        with link_href_image [OF Some] have "link_href e' = mapped_href m ?x"
          by (simp only: Some)
        moreover from True have "?x \<in> set (entries ?x)" by simp
        ultimately show ?thesis using Some by (metis option.distinct(1))
      next
        assume "e' \<in> set (concat (map entries ?ys))"
        then show ?thesis by (rule below)
      qed
    qed
  next
    case False
    then have "in_place_of m ?x = [Element t a tx ?ys ta]"
      by (simp only: in_place_of_def rewritten_in_place element.sel if_False)
    with Element.prems False have "e' \<in> set (concat (map entries ?ys))" by simp
    then show ?thesis by (rule below)
  qed
qed

lemma image_of_root:
  assumes "el_tag xml = atom_entry \<longrightarrow> mapped_href m xml \<noteq> None"
  shows "in_place_of m xml = [spec_filter m xml]"
  using assms by (auto simp: in_place_of_def spec_filter_def)

lemma hrefs_concat_in_place:
  "(\<And>c. c \<in> set cs \<Longrightarrow>
      map w (concat (map entries (f c))) = map g (filter P (entries c))) \<Longrightarrow>
   map w (concat (map entries (concat (map f cs)))) = map g (filter P (concat (map entries cs)))"
  by (induction cs) auto

text \<open>
  Without nested entries, the links of the entries of the output are, in order, the
  mapped article URLs of the entries of the input whose link is a key.
\<close>

lemma hrefs_in_place:
  "no_nested_entries e \<Longrightarrow>
     map link_href (concat (map entries (in_place_of m e)))
       = map (mapped_href m) (filter (\<lambda>x. mapped_href m x \<noteq> None) (entries e))"
proof (induction e)
  case (Element t a tx cs ta)
  let ?e = "Element t a tx cs ta"
  show ?case
  proof (cases "t = atom_entry")
    case True
    with Element.prems have kids: "\<forall>c \<in> set cs. entries c = []"
      by (simp add: no_nested_entries_def list_all_iff)
    then have only: "entries ?e = [?e]" using True by simp
    have "in_place_of m c = [c]" if "c \<in> set cs" for c
      using that kids rewritten_no_entries [of c m] entries_Nil_tag [of c]
      by (simp add: in_place_of_def)
    then have "concat (map (in_place_of m) cs) = cs" by (rule concat_map_singletons)
    then have same: "rewritten m ?e = ?e" by (simp only: rewritten_in_place)
    show ?thesis
    proof (cases "mapped_href m ?e")
      case None
      with True only show ?thesis by (simp add: in_place_of_def)
    next
      case (Some v)
      have image: "entries (with_link v ?e) = [with_link v ?e]"
        using True entries_set_first_link [OF kids, of v] by (simp add: with_link_def)
      have "in_place_of m ?e = [with_link v (rewritten m ?e)]"
        using True Some by (simp add: in_place_of_def del: rewritten.simps)
      then have "in_place_of m ?e = [with_link v ?e]"
        by (simp only: same)
      moreover from link_href_image [OF Some] have "link_href (with_link v ?e) = Some v"
        by (simp only: same)
      ultimately have "map link_href (concat (map entries (in_place_of m ?e))) = [Some v]"
        by (simp only: image list.map concat.simps append_Nil2)
      moreover have "map (mapped_href m) (filter (\<lambda>x. mapped_href m x \<noteq> None) (entries ?e))
          = [Some v]"
        by (simp only: only Some filter.simps list.map option.distinct not_False_eq_True if_True)
      ultimately show ?thesis by (rule trans [OF _ sym])
    qed
  next
    case False
    have each: "map link_href (concat (map entries (in_place_of m c)))
        = map (mapped_href m) (filter (\<lambda>x. mapped_href m x \<noteq> None) (entries c))"
      if "c \<in> set cs" for c
      using Element.IH [OF that no_nested_entries_child [OF Element.prems that]] .
    have "map link_href (concat (map entries (concat (map (in_place_of m) cs))))
        = map (mapped_href m) (filter (\<lambda>x. mapped_href m x \<noteq> None) (concat (map entries cs)))"
      by (rule hrefs_concat_in_place) (rule each)
    moreover have "in_place_of m ?e = [Element t a tx (concat (map (in_place_of m) cs)) ta]"
      using False by (simp only: in_place_of_def rewritten_in_place element.sel if_False)
    moreover have "entries ?e = concat (map entries cs)"
      using False by simp
    ultimately show ?thesis using False by simp
  qed
qed

lemmas feed_eval =
  filter_feed_def entry_verdict_def find_link_def get_href_def atom_entry_def atom_link_def
  link_to_def entry_for_def set_href_def with_href_def mapped_href_def
  no_control_characters_def

lemma three_entries_filtered:
  "filter_feed no_control_characters [''A'' \<mapsto> ''X''] three_entries_feed =
     Inr (Element ''{http://www.w3.org/2005/Atom}feed'' [] [] [entry_for ''a'' ''X''] [])"
  by (simp add: three_entries_feed_def feed_eval)

text \<open>
  C8, as amended.  When every entry of the document has a link child, every article
  URL that the mapping gives for an entry is a string lxml accepts as an attribute
  value, and the root is not itself an entry whose link is not in the mapping, the loop
  of \<open>main\<close> returns the document that the spec's filter describes: walking the entries
  in feed order, each entry whose link's \<^verbatim>\<open>href\<close> is a key is kept and each entry whose
  \<^verbatim>\<open>href\<close> is not a key is removed.  Every entry of that document stands for an entry
  of the input whose \<^verbatim>\<open>href\<close> is a key, and the \<^verbatim>\<open>href\<close> of its link is the mapped
  article URL; where no entry has an entry inside it, the links of the output's entries
  are, in order, exactly the mapped article URLs of the input's entries whose
  \<^verbatim>\<open>href\<close> is a key.
\<close>

theorem feed_filter_rewrites_or_removes:
  assumes links: "entries_have_links xml"
    and vals: "values_compatible compatible url_mapping xml"
    and root: "el_tag xml = atom_entry \<longrightarrow> mapped_href url_mapping xml \<noteq> None"
  shows "filter_feed compatible url_mapping xml = Inr (spec_filter url_mapping xml)
         \<and> (\<forall>e' \<in> set (entries (spec_filter url_mapping xml)).
               \<exists>e \<in> set (entries xml).
                 mapped_href url_mapping e \<noteq> None \<and> link_href e' = mapped_href url_mapping e)
         \<and> (no_nested_entries xml \<longrightarrow>
               map link_href (entries (spec_filter url_mapping xml))
                 = map (mapped_href url_mapping)
                     (filter (\<lambda>e. mapped_href url_mapping e \<noteq> None) (entries xml)))"
proof -
  note image = image_of_root [OF root]
  have all: "entries (spec_filter url_mapping xml)
      = concat (map entries (in_place_of url_mapping xml))"
    by (simp add: image)
  have 1: "filter_feed compatible url_mapping xml = Inr (spec_filter url_mapping xml)"
    using links vals root by (rule filter_feed_succeeds)
  have 2: "\<exists>e \<in> set (entries xml).
      mapped_href url_mapping e \<noteq> None \<and> link_href e' = mapped_href url_mapping e"
    if "e' \<in> set (entries (spec_filter url_mapping xml))" for e'
    using that entries_of_image [of e' url_mapping xml] by (simp only: all)
  have 3: "map link_href (entries (spec_filter url_mapping xml))
      = map (mapped_href url_mapping)
          (filter (\<lambda>e. mapped_href url_mapping e \<noteq> None) (entries xml))"
    if "no_nested_entries xml"
    using hrefs_in_place [OF that, of url_mapping] by (simp only: all)
  from 1 2 3 show ?thesis by blast
qed

theorem feed_filter_rewrites_or_removes_witness:
  "entries_have_links three_entries_feed
   \<and> values_compatible no_control_characters [''A'' \<mapsto> ''X''] three_entries_feed
   \<and> el_tag three_entries_feed \<noteq> atom_entry
   \<and> no_nested_entries three_entries_feed
   \<and> filter_feed no_control_characters [''A'' \<mapsto> ''X''] three_entries_feed
       = Inr (spec_filter [''A'' \<mapsto> ''X''] three_entries_feed)
   \<and> spec_filter [''A'' \<mapsto> ''X''] three_entries_feed
       = Element ''{http://www.w3.org/2005/Atom}feed'' [] [] [entry_for ''a'' ''X''] []
   \<and> map link_href (entries (spec_filter [''A'' \<mapsto> ''X''] three_entries_feed)) = [Some ''X'']"
proof -
  have links: "entries_have_links three_entries_feed"
    by (simp add: entries_have_links_def three_entries_feed_def feed_eval)
  have vals: "values_compatible no_control_characters [''A'' \<mapsto> ''X''] three_entries_feed"
    by (simp add: values_compatible_def three_entries_feed_def feed_eval)
  have root: "el_tag three_entries_feed \<noteq> atom_entry"
    by (simp add: three_entries_feed_def atom_entry_def)
  have flat: "no_nested_entries three_entries_feed"
    by (simp add: no_nested_entries_def three_entries_feed_def feed_eval)
  have kept: "map (mapped_href [''A'' \<mapsto> ''X''])
      (filter (\<lambda>e. mapped_href [''A'' \<mapsto> ''X''] e \<noteq> None) (entries three_entries_feed))
      = [Some ''X'']"
    by (simp add: three_entries_feed_def feed_eval)
  from feed_filter_rewrites_or_removes [OF links vals, of] root flat kept
  have "filter_feed no_control_characters [''A'' \<mapsto> ''X''] three_entries_feed
      = Inr (spec_filter [''A'' \<mapsto> ''X''] three_entries_feed)"
    and "map link_href (entries (spec_filter [''A'' \<mapsto> ''X''] three_entries_feed)) = [Some ''X'']"
    by simp_all
  with links vals root flat three_entries_filtered show ?thesis by simp
qed

text \<open>
  The claim as stated fails for a document with an entry that has no link child: its
  \<^verbatim>\<open>href\<close> is not a key of the mapping, yet the entry is not removed.  The loop raises
  \<^verbatim>\<open>AttributeError\<close> and no document is returned.  It fails too where the mapped
  article URL has a control character: the entry's \<^verbatim>\<open>href\<close> is a key, yet the link is
  not rewritten, for \<^verbatim>\<open>link.set\<close> raises \<^verbatim>\<open>ValueError\<close>.
\<close>

theorem entry_without_link_counterexample:
  "mapped_href Map.empty (hd (entries unlinked_feed)) = None
   \<and> filter_feed no_control_characters Map.empty unlinked_feed = Inl AttributeError
   \<and> spec_filter Map.empty unlinked_feed = Element ''{http://www.w3.org/2005/Atom}feed'' [] [] [] []
   \<and> mapped_href [''A'' \<mapsto> [CHR 0x01]] (hd (entries control_value_feed)) = Some [CHR 0x01]
   \<and> filter_feed no_control_characters [''A'' \<mapsto> [CHR 0x01]] control_value_feed = Inl ValueError"
  by (simp add: unlinked_feed_def control_value_feed_def feed_eval spec_filter_def)

text \<open>
  C10, as amended.  When no entry of the document has an entry inside it, the entries of
  the output, in document order, are the entries of the input whose link's \<^verbatim>\<open>href\<close>
  is a key of the mapping, in the same order, and each agrees with its original on
  everything but the \<^verbatim>\<open>href\<close> of its link.
\<close>

theorem retained_entries_keep_all_but_href:
  assumes ok: "filter_feed compatible url_mapping xml = Inr xml'"
    and flat: "no_nested_entries xml"
  shows "map without_link_href (entries xml')
           = map without_link_href
               (filter (\<lambda>e. mapped_href url_mapping e \<noteq> None) (entries xml))"
proof -
  note success = filter_feed_success [OF ok]
  from image_of_root [OF success(4)] success(1) have "in_place_of url_mapping xml = [xml']"
    by simp
  then have "entries xml' = concat (map entries (in_place_of url_mapping xml))"
    by simp
  with entries_in_place [OF flat, of url_mapping] show ?thesis by simp
qed

theorem retained_entries_keep_all_but_href_witness:
  "filter_feed no_control_characters [''A'' \<mapsto> ''X''] three_entries_feed =
     Inr (Element ''{http://www.w3.org/2005/Atom}feed'' [] [] [entry_for ''a'' ''X''] [])
   \<and> no_nested_entries three_entries_feed
   \<and> map without_link_href
         (entries (Element ''{http://www.w3.org/2005/Atom}feed'' [] [] [entry_for ''a'' ''X''] []))
       = map without_link_href
           (filter (\<lambda>e. mapped_href [''A'' \<mapsto> ''X''] e \<noteq> None) (entries three_entries_feed))
   \<and> filter (\<lambda>e. mapped_href [''A'' \<mapsto> ''X''] e \<noteq> None) (entries three_entries_feed)
       = [entry_for ''a'' ''A'']"
proof -
  have flat: "no_nested_entries three_entries_feed"
    by (simp add: no_nested_entries_def three_entries_feed_def feed_eval)
  have "filter (\<lambda>e. mapped_href [''A'' \<mapsto> ''X''] e \<noteq> None) (entries three_entries_feed)
      = [entry_for ''a'' ''A'']"
    by (simp add: three_entries_feed_def feed_eval)
  with retained_entries_keep_all_but_href [OF three_entries_filtered flat] flat
    three_entries_filtered
  show ?thesis by simp
qed

text \<open>
  The claim as stated fails for an entry with an entry inside it: the outer entry is
  retained, and the inner one, whose link is not in the mapping, is removed from it.
\<close>

theorem nested_entry_counterexample:
  "filter_feed no_control_characters [''A'' \<mapsto> ''X''] nested_feed =
     Inr (Element ''{http://www.w3.org/2005/Atom}feed'' [] []
            [Element atom_entry [] [] [link_to ''X''] []] [])
   \<and> mapped_href [''A'' \<mapsto> ''X''] nested_entry = Some ''X''
   \<and> without_link_href (Element atom_entry [] [] [link_to ''X''] [])
       \<noteq> without_link_href nested_entry"
  by (simp add: nested_feed_def nested_entry_def feed_eval without_link_href_def)

lemma two_attribute_filtered:
  "filter_feed no_control_characters [''A'' \<mapsto> ''X''] two_attribute_feed =
     Inr (Element ''{http://www.w3.org/2005/Atom}feed'' [] []
       [Element atom_entry [] []
          [Element atom_link [(''rel'', ''alternate''), (''href'', ''X'')] [] [] []] []] [])"
  by (simp add: two_attribute_feed_def feed_eval)


end
